theory Spec2Isabelle
  imports Complex_Main "HOL-Library.AList" "HOL-Library.Sublist"
begin

section \<open>Python values\<close>

text \<open>
  The analysis is the Python module \<^verbatim>\<open>pagerank_analysis.py\<close>. Its exceptions are values of
  the type \<open>error\<close>; a function that can raise returns \<open>error + 'a\<close>, with \<open>Inl\<close> for the
  exception. Python floats are modelled by exact rationals: rounding is not modelled, so
  every statement below about a rank is a statement of exact arithmetic. Python integers
  are \<open>int\<close>. A Python \<^verbatim>\<open>set\<close> of pages is a duplicate-free list, which fixes one iteration
  order; a \<^verbatim>\<open>dict\<close> is an association list in insertion order.
\<close>

datatype error = ZeroDivisionError | KeyError | ValueError | StatisticsError

definition ebind :: "error + 'a \<Rightarrow> ('a \<Rightarrow> error + 'b) \<Rightarrow> error + 'b" where
  "ebind m f = (case m of Inl e \<Rightarrow> Inl e | Inr x \<Rightarrow> f x)"

text \<open>True division \<^verbatim>\<open>a / b\<close>: raises on a zero divisor.\<close>

definition py_div :: "rat \<Rightarrow> rat \<Rightarrow> error + rat" where
  "py_div a b = (if b = 0 then Inl ZeroDivisionError else Inr (a / b))"

text \<open>\<^verbatim>\<open>d[k]\<close> on a plain dict raises KeyError on a missing key.\<close>

definition dict_get :: "('k \<times> 'v) list \<Rightarrow> 'k \<Rightarrow> error + 'v" where
  "dict_get d k = (case map_of d k of None \<Rightarrow> Inl KeyError | Some v \<Rightarrow> Inr v)"

text \<open>
  \<^verbatim>\<open>d[k] = v\<close> is \<open>AList.update k v d\<close>: an existing key keeps its position, a new key goes
  to the end.
\<close>

text \<open>
  The graph is a \<^verbatim>\<open>defaultdict(list)\<close> (line 87 of the source): reading a missing key
  gives the empty list and never raises.
\<close>

type_synonym 'p graph = "'p \<rightharpoonup> 'p list"

definition graph_get :: "'p graph \<Rightarrow> 'p \<Rightarrow> 'p list" where
  "graph_get g page = (case g page of None \<Rightarrow> [] | Some targets \<Rightarrow> targets)"

type_synonym 'p rankvec = "('p \<times> rat) list"

section \<open>The PageRank engine: \<^verbatim>\<open>compute_pagerank\<close>\<close>

text \<open>Line 159: \<^verbatim>\<open>pagerank = {page: 1.0/n for page in pages}\<close>.\<close>

fun init_pagerank :: "nat \<Rightarrow> 'p list \<Rightarrow> 'p rankvec \<Rightarrow> error + 'p rankvec" where
  "init_pagerank n [] pagerank = Inr pagerank"
| "init_pagerank n (page # rest) pagerank =
     ebind (py_div 1 (of_nat n)) (\<lambda>r. init_pagerank n rest (AList.update page r pagerank))"

text \<open>
  Lines 162-165: the incoming index, a \<^verbatim>\<open>defaultdict(list)\<close>;
  \<^verbatim>\<open>incoming[target].append(page)\<close> for every page and every target of the page, a
  target listed twice being appended twice.
\<close>

definition incoming_append :: "('p \<Rightarrow> 'p list) \<Rightarrow> 'p \<Rightarrow> 'p \<Rightarrow> ('p \<Rightarrow> 'p list)" where
  "incoming_append incoming target page = incoming(target := incoming target @ [page])"

definition build_incoming :: "'p graph \<Rightarrow> 'p list \<Rightarrow> ('p \<Rightarrow> 'p list)" where
  "build_incoming g pages =
     fold (\<lambda>page inc. fold (\<lambda>target inc'. incoming_append inc' target page) (graph_get g page) inc)
       pages (\<lambda>_. [])"

text \<open>Line 168.\<close>

definition dangling_nodes :: "'p graph \<Rightarrow> 'p list \<Rightarrow> 'p list" where
  "dangling_nodes g pages = filter (\<lambda>page. length (graph_get g page) = 0) pages"

text \<open>Line 176: \<^verbatim>\<open>sum(pagerank[page] for page in dangling_nodes)\<close>, from the start value 0.\<close>

fun sum_pagerank :: "'p rankvec \<Rightarrow> 'p list \<Rightarrow> rat \<Rightarrow> error + rat" where
  "sum_pagerank pagerank [] acc = Inr acc"
| "sum_pagerank pagerank (page # rest) acc =
     ebind (dict_get pagerank page) (\<lambda>r. sum_pagerank pagerank rest (acc + r))"

text \<open>Lines 183-186: the contributions of the incoming pages, added to \<open>rank\<close>.\<close>

fun add_incoming :: "'p graph \<Rightarrow> rat \<Rightarrow> 'p rankvec \<Rightarrow> 'p list \<Rightarrow> rat \<Rightarrow> error + rat" where
  "add_incoming g damping pagerank [] rank = Inr rank"
| "add_incoming g damping pagerank (incoming_page # rest) rank =
     (let outgoing_count = length (graph_get g incoming_page) in
      if outgoing_count > 0 then
        ebind (dict_get pagerank incoming_page) (\<lambda>r.
          add_incoming g damping pagerank rest (rank + damping * (r / of_nat outgoing_count)))
      else add_incoming g damping pagerank rest rank)"

text \<open>Lines 178-188: the loop over the pages that fills \<open>new_pagerank\<close>.\<close>

fun update_ranks ::
  "'p graph \<Rightarrow> ('p \<Rightarrow> 'p list) \<Rightarrow> nat \<Rightarrow> rat \<Rightarrow> 'p rankvec \<Rightarrow> rat \<Rightarrow> 'p list \<Rightarrow> 'p rankvec
     \<Rightarrow> error + 'p rankvec" where
  "update_ranks g incoming n damping pagerank dangling_sum [] new_pagerank = Inr new_pagerank"
| "update_ranks g incoming n damping pagerank dangling_sum (page # rest) new_pagerank =
     ebind (py_div (1 - damping) (of_nat n)) (\<lambda>a.
     ebind (py_div dangling_sum (of_nat n)) (\<lambda>b.
     ebind (add_incoming g damping pagerank (incoming page) (a + damping * b)) (\<lambda>rank.
       update_ranks g incoming n damping pagerank dangling_sum rest
         (AList.update page rank new_pagerank))))"

text \<open>Lines 173-188: one iteration, from the previous vector to the new one.\<close>

definition pagerank_iteration ::
  "'p graph \<Rightarrow> 'p list \<Rightarrow> ('p \<Rightarrow> 'p list) \<Rightarrow> 'p list \<Rightarrow> nat \<Rightarrow> rat \<Rightarrow> 'p rankvec
     \<Rightarrow> error + 'p rankvec" where
  "pagerank_iteration g pages incoming dangling n damping pagerank =
     ebind (sum_pagerank pagerank dangling 0) (\<lambda>dangling_sum.
       update_ranks g incoming n damping pagerank dangling_sum pages [])"

text \<open>Lines 191-193: \<^verbatim>\<open>sum(pagerank.values())\<close> and the relative change of the totals.\<close>

definition sum_values :: "'p rankvec \<Rightarrow> rat" where
  "sum_values pagerank = sum_list (map snd pagerank)"

definition rel_change :: "'p rankvec \<Rightarrow> 'p rankvec \<Rightarrow> error + rat" where
  "rel_change pagerank new_pagerank =
     (let total_old = sum_values pagerank; total_new = sum_values new_pagerank
      in py_div \<bar>total_new - total_old\<bar> total_old)"

text \<open>Lines 171-208: the \<^verbatim>\<open>while\<close> loop, with its \<^verbatim>\<open>break\<close>, and the returned pair.\<close>

function pagerank_loop ::
  "'p graph \<Rightarrow> 'p list \<Rightarrow> ('p \<Rightarrow> 'p list) \<Rightarrow> 'p list \<Rightarrow> nat \<Rightarrow> rat \<Rightarrow> rat \<Rightarrow> int
     \<Rightarrow> 'p rankvec \<Rightarrow> int \<Rightarrow> error + ('p rankvec \<times> int)" where
  "pagerank_loop g pages incoming dangling n damping tolerance max_iterations pagerank iteration =
     (if iteration < max_iterations then
        (case pagerank_iteration g pages incoming dangling n damping pagerank of
           Inl e \<Rightarrow> Inl e
         | Inr new_pagerank \<Rightarrow>
            (case rel_change pagerank new_pagerank of
               Inl e \<Rightarrow> Inl e
             | Inr change \<Rightarrow>
                 if change < tolerance then Inr (new_pagerank, iteration + 1)
                 else pagerank_loop g pages incoming dangling n damping tolerance max_iterations
                        new_pagerank (iteration + 1)))
      else Inr (pagerank, iteration))"
  by pat_completeness auto
termination
  by (relation "measure (\<lambda>(g, pages, incoming, dangling, n, damping, tolerance, max_iterations,
        pagerank, iteration). nat (max_iterations - iteration))") auto

declare pagerank_loop.simps [simp del]

definition compute_pagerank ::
  "'p graph \<Rightarrow> 'p list \<Rightarrow> rat \<Rightarrow> rat \<Rightarrow> int \<Rightarrow> error + ('p rankvec \<times> int)" where
  "compute_pagerank g pages damping tolerance max_iterations =
     (let n = length pages in
      ebind (init_pagerank n pages []) (\<lambda>pagerank.
        pagerank_loop g pages (build_incoming g pages) (dangling_nodes g pages) n damping tolerance
          max_iterations pagerank 0))"

section \<open>The link extractor and the graph builder: \<^verbatim>\<open>parse_links\<close>, \<^verbatim>\<open>build_graph\<close>\<close>

text \<open>
  Strings are lists of ASCII characters. The conversion \<^verbatim>\<open>int(s)\<close> of a string is modelled
  from the language reference: surrounding whitespace is dropped, one sign is allowed,
  then come decimal digits, where single underscores may separate digits; anything else
  raises ValueError. The interpreter also refuses a string of more than
  \<^verbatim>\<open>sys.get_int_max_str_digits()\<close> digits (4300 by default from Python 3.11, 0 for no
  limit, as in older interpreters): that number is the parameter \<open>limit\<close>.
\<close>

definition is_digit :: "char \<Rightarrow> bool" where
  "is_digit c = (48 \<le> (of_char c :: nat) \<and> (of_char c :: nat) \<le> 57)"

definition digit_value :: "char \<Rightarrow> int" where
  "digit_value c = int (of_char c) - 48"

definition is_space :: "char \<Rightarrow> bool" where
  "is_space c = ((9 \<le> (of_char c :: nat) \<and> (of_char c :: nat) \<le> 13) \<or> c = CHR '' '')"

definition strip :: "string \<Rightarrow> string" where
  "strip s = rev (dropWhile is_space (rev (dropWhile is_space s)))"

fun int_digits :: "string \<Rightarrow> int \<Rightarrow> nat \<Rightarrow> (int \<times> nat) option" where
  "int_digits [] v k = Some (v, k)"
| "int_digits (c # cs) v k =
     (if is_digit c then int_digits cs (10 * v + digit_value c) (k + 1)
      else if c = CHR ''_'' then
        (case cs of
           [] \<Rightarrow> None
         | d # ds \<Rightarrow> if is_digit d then int_digits ds (10 * v + digit_value d) (k + 1) else None)
      else None)"

definition int_literal :: "nat \<Rightarrow> string \<Rightarrow> error + int" where
  "int_literal limit s =
     (case s of
        [] \<Rightarrow> Inl ValueError
      | c # cs \<Rightarrow>
          if is_digit c then
            (case int_digits cs (digit_value c) 1 of
               None \<Rightarrow> Inl ValueError
             | Some (v, k) \<Rightarrow> if 0 < limit \<and> limit < k then Inl ValueError else Inr v)
          else Inl ValueError)"

definition py_int :: "nat \<Rightarrow> string \<Rightarrow> error + int" where
  "py_int limit s =
     (case strip s of
        [] \<Rightarrow> Inl ValueError
      | c # cs \<Rightarrow>
          if c = CHR ''-'' then map_sum id uminus (int_literal limit cs)
          else if c = CHR ''+'' then int_literal limit cs
          else int_literal limit (c # cs))"

text \<open>\<^verbatim>\<open>s.replace(old, '')\<close> for a non-empty \<open>old\<close>: every occurrence, from the left, is deleted.\<close>

function str_remove :: "string \<Rightarrow> string \<Rightarrow> string" where
  "str_remove old [] = []"
| "str_remove old (c # cs) =
     (if old \<noteq> [] \<and> prefix old (c # cs) then str_remove old (drop (length old) (c # cs))
      else c # str_remove old cs)"
  by pat_completeness auto
termination
  by (relation "measure (\<lambda>(old, s). length s)") auto

text \<open>
  Line 79: the pattern \<^verbatim>\<open><a HREF="(\d+)\.html">\<close>. A match at the start of a string gives the
  digits captured and the text after the match; \<^verbatim>\<open>re.findall\<close> collects the captures of the
  matches from left to right, which do not overlap.
\<close>

definition anchor_open :: string where
  "anchor_open = ''<a HREF='' @ [CHR 0x22]"

definition anchor_close :: string where
  "anchor_close = ''.html'' @ [CHR 0x22] @ ''>''"

definition match_anchor :: "string \<Rightarrow> (string \<times> string) option" where
  "match_anchor s =
     (if prefix anchor_open s then
        (let r = drop (length anchor_open) s; ds = takeWhile is_digit r; r' = dropWhile is_digit r
         in if ds \<noteq> [] \<and> prefix anchor_close r' then Some (ds, drop (length anchor_close) r')
            else None)
      else None)"

function find_links :: "string \<Rightarrow> string list" where
  "find_links [] = []"
| "find_links (c # cs) =
     (case match_anchor (c # cs) of
        Some (ds, rest) \<Rightarrow> ds # find_links rest
      | None \<Rightarrow> find_links cs)"
  by pat_completeness auto
termination
proof (relation "measure length")
  fix c :: char and cs x ds rest
  assume "match_anchor (c # cs) = Some x" and "(ds, rest) = x"
  then have m: "match_anchor (c # cs) = Some (ds, rest)" by simp
  let ?r' = "dropWhile is_digit (drop (length anchor_open) (c # cs))"
  from m have p: "prefix anchor_close ?r'" and r: "rest = drop (length anchor_close) ?r'"
    by (auto simp: match_anchor_def Let_def split: if_splits)
  from p have "length anchor_close \<le> length ?r'"
    by (rule prefix_length_le)
  then have "length rest < length ?r'"
    using r by (simp add: anchor_close_def)
  also have "length ?r' \<le> length (drop (length anchor_open) (c # cs))"
    by (rule length_dropWhile_le)
  also have "\<dots> \<le> length (c # cs)" by simp
  finally show "(rest, c # cs) \<in> measure length" by simp
qed simp_all

text \<open>Line 81: \<^verbatim>\<open>[int(link) for link in links]\<close>.\<close>

fun convert_links :: "nat \<Rightarrow> string list \<Rightarrow> error + int list" where
  "convert_links limit [] = Inr []"
| "convert_links limit (link # links) =
     ebind (py_int limit link) (\<lambda>n. ebind (convert_links limit links) (\<lambda>ns. Inr (n # ns)))"

definition parse_links :: "nat \<Rightarrow> string \<Rightarrow> error + int list" where
  "parse_links limit html_content = convert_links limit (find_links html_content)"

text \<open>\<^verbatim>\<open>pages.add(page_num)\<close> on the set of pages.\<close>

definition set_add :: "'a list \<Rightarrow> 'a \<Rightarrow> 'a list" where
  "set_add s x = (if x \<in> set s then s else s @ [x])"

text \<open>Lines 92-95: the first loop of \<^verbatim>\<open>build_graph\<close>, over the filenames.\<close>

fun parse_names :: "nat \<Rightarrow> string list \<Rightarrow> int list \<Rightarrow> error + int list" where
  "parse_names limit [] pages = Inr pages"
| "parse_names limit (filename # rest) pages =
     ebind (py_int limit (str_remove ''.html'' filename)) (\<lambda>page_num.
       parse_names limit rest (set_add pages page_num))"

text \<open>Lines 98-105: the second loop, over the filenames and their contents.\<close>

fun fill_graph ::
  "nat \<Rightarrow> (string \<times> string) list \<Rightarrow> int graph \<Rightarrow> (int \<Rightarrow> int list)
     \<Rightarrow> error + (int graph \<times> (int \<Rightarrow> int list))" where
  "fill_graph limit [] g incoming = Inr (g, incoming)"
| "fill_graph limit ((filename, content) # rest) g incoming =
     ebind (py_int limit (str_remove ''.html'' filename)) (\<lambda>page_num.
     ebind (parse_links limit content) (\<lambda>outgoing_links.
       fill_graph limit rest (g(page_num \<mapsto> outgoing_links))
         (fold (\<lambda>target inc. incoming_append inc target page_num) outgoing_links incoming)))"

text \<open>
  \<^verbatim>\<open>files_content\<close> is a dict from filename to text, here the list of its items. The
  result is the triple \<^verbatim>\<open>(graph, incoming, pages)\<close>.
\<close>

definition build_graph ::
  "nat \<Rightarrow> (string \<times> string) list \<Rightarrow> error + (int graph \<times> (int \<Rightarrow> int list) \<times> int list)" where
  "build_graph limit files_content =
     ebind (parse_names limit (map fst files_content) []) (\<lambda>pages.
     ebind (fill_graph limit files_content Map.empty (\<lambda>_. [])) (\<lambda>(g, incoming).
       Inr (g, incoming, pages)))"

section \<open>The link statistics engine: \<^verbatim>\<open>compute_statistics\<close>\<close>

text \<open>
  The functions of the \<^verbatim>\<open>statistics\<close> module that the engine calls, on lists of integers,
  with exact results. \<^verbatim>\<open>statistics.quantiles\<close> (method \<^verbatim>\<open>exclusive\<close>) raises
  StatisticsError on fewer than two data points up to Python 3.12 and accepts a single
  data point from Python 3.13: the parameter \<open>single_point\<close> is true for the latter.
\<close>

definition stat_mean :: "int list \<Rightarrow> error + rat" where
  "stat_mean data =
     (let n = length data
      in if n < 1 then Inl StatisticsError else Inr (of_int (sum_list data) / of_nat n))"

definition stat_median :: "int list \<Rightarrow> error + rat" where
  "stat_median data =
     (let data = sort data; n = length data
      in if n = 0 then Inl StatisticsError
         else if n mod 2 = 1 then Inr (of_int (data ! (n div 2)))
         else (let i = n div 2 in Inr ((of_int (data ! (i - 1)) + of_int (data ! i)) / 2)))"

definition py_max :: "int list \<Rightarrow> error + int" where
  "py_max data = (case data of [] \<Rightarrow> Inl ValueError | x # xs \<Rightarrow> Inr (fold max xs x))"

definition py_min :: "int list \<Rightarrow> error + int" where
  "py_min data = (case data of [] \<Rightarrow> Inl ValueError | x # xs \<Rightarrow> Inr (fold min xs x))"

definition cut_point :: "int list \<Rightarrow> int \<Rightarrow> int \<Rightarrow> rat" where
  "cut_point data n i =
     (let ld = int (length data); m = ld + 1;
          j = i * m div n;
          j = (if j < 1 then 1 else if j > ld - 1 then ld - 1 else j);
          delta = i * m - j * n
      in of_int (data ! nat (j - 1) * (n - delta) + data ! nat j * delta) / of_int n)"

definition stat_quantiles :: "bool \<Rightarrow> int list \<Rightarrow> int \<Rightarrow> error + rat list" where
  "stat_quantiles single_point data n =
     (if n < 1 then Inl StatisticsError
      else (let data = sort data; ld = length data
            in if ld < 2 then
                 (if single_point \<and> ld = 1 then Inr (replicate (nat (n - 1)) (of_int (hd data)))
                  else Inl StatisticsError)
               else Inr (map (cut_point data n) [1..n - 1])))"

text \<open>The two inner dicts of \<^verbatim>\<open>stats\<close> and \<^verbatim>\<open>stats\<close> itself (lines 124-139).\<close>

record degree_stats =
  average :: rat
  median :: rat
  max_value :: int
  min_value :: int
  quintiles :: "rat list"

record link_stats =
  outgoing_stats :: degree_stats
  incoming_stats :: degree_stats

definition describe :: "bool \<Rightarrow> int list \<Rightarrow> error + degree_stats" where
  "describe single_point counts =
     ebind (stat_mean counts) (\<lambda>a.
     ebind (stat_median counts) (\<lambda>m.
     ebind (py_max counts) (\<lambda>hi.
     ebind (py_min counts) (\<lambda>lo.
     ebind (stat_quantiles single_point counts 5) (\<lambda>q.
       Inr \<lparr>average = a, median = m, max_value = hi, min_value = lo, quintiles = q\<rparr>)))))"

text \<open>Line 113.\<close>

definition outgoing_counts :: "'p graph \<Rightarrow> 'p list \<Rightarrow> int list" where
  "outgoing_counts g pages = map (\<lambda>page. int (length (graph_get g page))) pages"

text \<open>Lines 114-119: \<^verbatim>\<open>incoming_counts\<close>, a \<^verbatim>\<open>defaultdict(int)\<close>.\<close>

definition incoming_counts :: "'p graph \<Rightarrow> 'p list \<Rightarrow> ('p \<Rightarrow> int)" where
  "incoming_counts g pages =
     fold (\<lambda>page counts. fold (\<lambda>target c. c(target := c target + 1)) (graph_get g page) counts)
       pages (\<lambda>_. 0)"

text \<open>Line 121.\<close>

definition incoming_values :: "'p graph \<Rightarrow> 'p list \<Rightarrow> int list" where
  "incoming_values g pages = map (incoming_counts g pages) pages"

definition compute_statistics :: "bool \<Rightarrow> 'p graph \<Rightarrow> 'p list \<Rightarrow> error + link_stats" where
  "compute_statistics single_point g pages =
     ebind (describe single_point (outgoing_counts g pages)) (\<lambda>out.
     ebind (describe single_point (incoming_values g pages)) (\<lambda>inc.
       Inr \<lparr>outgoing_stats = out, incoming_stats = inc\<rparr>))"

section \<open>Notions for stating the properties of the builder and of the statistics\<close>

text \<open>
  A filename of the form \<^verbatim>\<open><digits>.html\<close>, its digit part, and the number a digit string
  denotes.
\<close>

definition digits_html :: "string \<Rightarrow> bool" where
  "digits_html filename =
     (5 < length filename \<and> drop (length filename - 5) filename = ''.html''
      \<and> list_all is_digit (take (length filename - 5) filename))"

definition digit_part :: "string \<Rightarrow> string" where
  "digit_part filename = take (length filename - 5) filename"

definition decimal :: "string \<Rightarrow> int" where
  "decimal ds = foldl (\<lambda>v c. 10 * v + digit_value c) 0 ds"

text \<open>The graph without the edges whose target is outside the page set.\<close>

definition in_corpus_edges :: "'p graph \<Rightarrow> 'p list \<Rightarrow> 'p graph" where
  "in_corpus_edges g pages = (\<lambda>page. map_option (filter (\<lambda>target. target \<in> set pages)) (g page))"

section \<open>Notions for stating the properties of the engine\<close>

text \<open>
  The vector after \<open>k\<close> iterations, obtained by running the source's loop body \<open>k\<close> times
  on the initial vector, and the relative change \<open>\<Delta>\<close> the source computes after the
  \<open>i\<close>-th iteration (lines 191-193).
\<close>

fun iterate_pagerank :: "'p graph \<Rightarrow> 'p list \<Rightarrow> rat \<Rightarrow> nat \<Rightarrow> error + 'p rankvec" where
  "iterate_pagerank g pages damping 0 = init_pagerank (length pages) pages []"
| "iterate_pagerank g pages damping (Suc k) =
     ebind (iterate_pagerank g pages damping k)
       (pagerank_iteration g pages (build_incoming g pages) (dangling_nodes g pages) (length pages) damping)"

definition delta_at :: "'p graph \<Rightarrow> 'p list \<Rightarrow> rat \<Rightarrow> nat \<Rightarrow> error + rat" where
  "delta_at g pages damping i =
     ebind (iterate_pagerank g pages damping (i - 1)) (\<lambda>pagerank.
     ebind (iterate_pagerank g pages damping i) (\<lambda>new_pagerank. rel_change pagerank new_pagerank))"

text \<open>A graph all of whose edge targets lie in the page set.\<close>

definition closed_graph :: "'p graph \<Rightarrow> 'p list \<Rightarrow> bool" where
  "closed_graph g pages = list_all (\<lambda>q. list_all (\<lambda>t. t \<in> set pages) (graph_get g q)) pages"

text \<open>
  The same computation in closed form, for the proofs: the rank read from a vector
  (0 for a missing page), the share one incoming link carries, the new rank of a page, with
  each linking page counted once per link, and the vectors these give.
\<close>

definition rank_of :: "'p rankvec \<Rightarrow> 'p \<Rightarrow> rat" where
  "rank_of pagerank p = (case map_of pagerank p of None \<Rightarrow> 0 | Some r \<Rightarrow> r)"

definition link_share :: "'p graph \<Rightarrow> rat \<Rightarrow> 'p rankvec \<Rightarrow> 'p \<Rightarrow> rat" where
  "link_share g damping pagerank q =
     (if 0 < length (graph_get g q)
      then damping * (rank_of pagerank q / of_nat (length (graph_get g q))) else 0)"

definition next_rank :: "'p graph \<Rightarrow> 'p list \<Rightarrow> rat \<Rightarrow> 'p rankvec \<Rightarrow> 'p \<Rightarrow> rat" where
  "next_rank g pages damping pagerank p =
     (1 - damping) / of_nat (length pages)
     + damping * (sum_list (map (rank_of pagerank) (dangling_nodes g pages)) / of_nat (length pages))
     + sum_list (map (\<lambda>q. of_nat (count_list (graph_get g q) p) * link_share g damping pagerank q) pages)"

definition step_vec :: "'p graph \<Rightarrow> 'p list \<Rightarrow> rat \<Rightarrow> 'p rankvec \<Rightarrow> 'p rankvec" where
  "step_vec g pages damping pagerank = map (\<lambda>p. (p, next_rank g pages damping pagerank p)) pages"

definition initial_vec :: "'p list \<Rightarrow> 'p rankvec" where
  "initial_vec pages = map (\<lambda>p. (p, 1 / of_nat (length pages))) pages"

definition iter_vec :: "'p graph \<Rightarrow> 'p list \<Rightarrow> rat \<Rightarrow> nat \<Rightarrow> 'p rankvec" where
  "iter_vec g pages damping k = (step_vec g pages damping ^^ k) (initial_vec pages)"

definition pure_delta :: "'p graph \<Rightarrow> 'p list \<Rightarrow> rat \<Rightarrow> nat \<Rightarrow> rat" where
  "pure_delta g pages damping i =
     \<bar>sum_values (iter_vec g pages damping i) - sum_values (iter_vec g pages damping (i - 1))\<bar>
       / sum_values (iter_vec g pages damping (i - 1))"


definition in_corpus :: "'p graph \<Rightarrow> 'p list \<Rightarrow> 'p \<Rightarrow> nat" where
  "in_corpus g pages q = length (filter (\<lambda>t. t \<in> set pages) (graph_get g q))"

text \<open>
  The new rank of a page as the specification words it, with a sum over the set of
  pages that link to \<open>p\<close>, and with every link counted.
\<close>

definition spec_new_rank :: "'p graph \<Rightarrow> 'p list \<Rightarrow> rat \<Rightarrow> 'p rankvec \<Rightarrow> 'p \<Rightarrow> rat" where
  "spec_new_rank g pages damping pagerank p =
     (1 - damping) / of_nat (length pages)
     + damping * sum_list (map (rank_of pagerank) (filter (\<lambda>q. length (graph_get g q) = 0) pages))
         / of_nat (length pages)
     + damping * (\<Sum>q \<in> set (filter (\<lambda>q. p \<in> set (graph_get g q) \<and> 0 < length (graph_get g q)) pages).
                    rank_of pagerank q / of_nat (length (graph_get g q)))"

definition new_rank_per_link :: "'p graph \<Rightarrow> 'p list \<Rightarrow> rat \<Rightarrow> 'p rankvec \<Rightarrow> 'p \<Rightarrow> rat" where
  "new_rank_per_link g pages damping pagerank p =
     (1 - damping) / of_nat (length pages)
     + damping * sum_list (map (rank_of pagerank) (filter (\<lambda>q. length (graph_get g q) = 0) pages))
         / of_nat (length pages)
     + damping * sum_list (map (\<lambda>q. of_nat (count_list (graph_get g q) p)
                                    * (rank_of pagerank q / of_nat (length (graph_get g q))))
                            (filter (\<lambda>q. 0 < length (graph_get g q)) pages))"

text \<open>
  The part of the rank of a page \<open>q\<close> that an iteration hands on to pages: all of it (times
  the damping) for a page without links, the share of the links that stay in the page set
  otherwise.
\<close>

definition kept_share :: "'p graph \<Rightarrow> 'p list \<Rightarrow> rat \<Rightarrow> 'p rankvec \<Rightarrow> 'p \<Rightarrow> rat" where
  "kept_share g pages damping pagerank q =
     (if length (graph_get g q) = 0 then damping * rank_of pagerank q
      else of_nat (in_corpus g pages q) * (damping * (rank_of pagerank q / of_nat (length (graph_get g q)))))"

section \<open>Properties of the PageRank engine\<close>

subsection \<open>The loops of the source in closed form\<close>

lemma dict_get_key: "k \<in> fst ` set d \<Longrightarrow> dict_get d k = Inr (rank_of d k)"
  by (auto simp: dict_get_def rank_of_def map_of_eq_None_iff split: option.splits)

lemma ebind_Inr [simp]: "ebind (Inr x) f = f x"
  by (simp add: ebind_def)

lemma ebind_Inl [simp]: "ebind (Inl e) f = Inl e"
  by (simp add: ebind_def)

lemma update_fresh: "k \<notin> fst ` set al \<Longrightarrow> AList.update k v al = al @ [(k, v)]"
  by (induction al) auto

lemma add_incoming_eq:
  "set qs \<subseteq> fst ` set pagerank \<Longrightarrow>
   add_incoming g damping pagerank qs rank = Inr (rank + sum_list (map (link_share g damping pagerank) qs))"
proof (induction qs arbitrary: rank)
  case Nil
  then show ?case by simp
next
  case (Cons q qs)
  then have "dict_get pagerank q = Inr (rank_of pagerank q)"
    by (simp add: dict_get_key)
  with Cons show ?case
    by (simp add: link_share_def Let_def)
qed

lemma sum_pagerank_eq:
  "set ps \<subseteq> fst ` set pagerank \<Longrightarrow>
   sum_pagerank pagerank ps acc = Inr (acc + sum_list (map (rank_of pagerank) ps))"
  by (induction ps arbitrary: acc) (simp_all add: dict_get_key)

lemma fold_incoming_append:
  "fold (\<lambda>target inc'. incoming_append inc' target page) ts inc t
     = inc t @ replicate (count_list ts t) page"
  by (induction ts arbitrary: inc) (auto simp: incoming_append_def replicate_append_same)

lemma fold_fold_incoming:
  "fold (\<lambda>page inc. fold (\<lambda>target inc'. incoming_append inc' target page) (graph_get g page) inc) ps inc t
     = inc t @ concat (map (\<lambda>p. replicate (count_list (graph_get g p) t) p) ps)"
  by (induction ps arbitrary: inc) (simp_all add: fold_incoming_append)

lemma build_incoming_eq:
  "build_incoming g pages t = concat (map (\<lambda>p. replicate (count_list (graph_get g p) t) p) pages)"
  by (simp add: build_incoming_def fold_fold_incoming)

lemma set_build_incoming: "set (build_incoming g pages t) \<subseteq> set pages"
  by (auto simp: build_incoming_eq)

lemma sum_list_concat_replicate:
  "sum_list (map f (concat (map (\<lambda>p. replicate (c p) p) ps)))
     = sum_list (map (\<lambda>p. of_nat (c p) * (f p :: rat)) ps)"
  by (induction ps) (simp_all add: sum_list_replicate)

lemma init_pagerank_eq:
  "n \<noteq> 0 \<Longrightarrow> distinct ps \<Longrightarrow> set ps \<inter> fst ` set acc = {} \<Longrightarrow>
   init_pagerank n ps acc = Inr (acc @ map (\<lambda>p. (p, 1 / of_nat n)) ps)"
proof (induction ps arbitrary: acc)
  case Nil
  then show ?case by simp
next
  case (Cons p ps)
  have "init_pagerank n (p # ps) acc = init_pagerank n ps (acc @ [(p, 1 / of_nat n)])"
    using Cons.prems by (simp add: py_div_def update_fresh)
  also have "\<dots> = Inr ((acc @ [(p, 1 / of_nat n)]) @ map (\<lambda>p. (p, 1 / of_nat n)) ps)"
    using Cons.prems by (intro Cons.IH) auto
  finally show ?case by simp
qed

lemma update_ranks_eq:
  "n \<noteq> 0 \<Longrightarrow> distinct ps \<Longrightarrow> set ps \<inter> fst ` set new = {} \<Longrightarrow>
   (\<And>p. p \<in> set ps \<Longrightarrow> set (incoming p) \<subseteq> fst ` set pagerank) \<Longrightarrow>
   update_ranks g incoming n damping pagerank ds ps new
     = Inr (new @ map (\<lambda>p. (p, (1 - damping) / of_nat n + damping * (ds / of_nat n)
                               + sum_list (map (link_share g damping pagerank) (incoming p)))) ps)"
proof (induction ps arbitrary: new)
  case Nil
  then show ?case by simp
next
  case (Cons p ps)
  let ?r = "(1 - damping) / of_nat n + damping * (ds / of_nat n)
              + sum_list (map (link_share g damping pagerank) (incoming p))"
  have inc: "set (incoming p) \<subseteq> fst ` set pagerank"
    using Cons.prems(4) by simp
  have "update_ranks g incoming n damping pagerank ds (p # ps) new
          = update_ranks g incoming n damping pagerank ds ps (new @ [(p, ?r)])"
    using Cons.prems(1,3) by (simp add: py_div_def add_incoming_eq [OF inc] update_fresh)
  also have "\<dots> = Inr ((new @ [(p, ?r)]) @ map (\<lambda>p. (p, (1 - damping) / of_nat n + damping * (ds / of_nat n)
                               + sum_list (map (link_share g damping pagerank) (incoming p)))) ps)"
    using Cons.prems by (intro Cons.IH) auto
  finally show ?case by simp
qed

lemma pagerank_iteration_eq:
  assumes "pages \<noteq> []" "distinct pages" "fst ` set pagerank = set pages"
  shows "pagerank_iteration g pages (build_incoming g pages) (dangling_nodes g pages) (length pages)
           damping pagerank = Inr (step_vec g pages damping pagerank)"
proof -
  have d: "set (dangling_nodes g pages) \<subseteq> fst ` set pagerank"
    using assms(3) by (auto simp: dangling_nodes_def)
  have i: "\<And>p. set (build_incoming g pages p) \<subseteq> fst ` set pagerank"
    using assms(3) set_build_incoming by fast
  have n: "length pages \<noteq> 0" using assms(1) by simp
  show ?thesis
    unfolding pagerank_iteration_def
    by (simp add: sum_pagerank_eq [OF d] update_ranks_eq [OF n assms(2) _ i] step_vec_def next_rank_def
        build_incoming_eq sum_list_concat_replicate)
qed

lemma rank_of_map: "p \<in> set ps \<Longrightarrow> rank_of (map (\<lambda>p. (p, f p)) ps) p = f p"
  by (simp add: rank_of_def map_of_map_restrict)

lemma sum_values_map: "sum_values (map (\<lambda>p. (p, f p)) ps) = sum_list (map f ps)"
  by (simp add: sum_values_def comp_def)

lemma vec_eq_map: "map fst pagerank = pages \<Longrightarrow> distinct pages \<Longrightarrow>
  pagerank = map (\<lambda>p. (p, rank_of pagerank p)) pages"
proof (induction pagerank arbitrary: pages)
  case Nil
  then show ?case by simp
next
  case (Cons kv pagerank)
  obtain k v where kv: "kv = (k, v)" by (cases kv)
  from Cons.prems kv obtain ps where ps: "pages = k # ps" "map fst pagerank = ps" "k \<notin> set ps" "distinct ps"
    by auto
  have "pagerank = map (\<lambda>p. (p, rank_of pagerank p)) ps"
    using Cons.IH ps by simp
  moreover have "\<And>p. p \<in> set ps \<Longrightarrow> rank_of (kv # pagerank) p = rank_of pagerank p"
    using ps kv by (auto simp: rank_of_def)
  ultimately have "pagerank = map (\<lambda>p. (p, rank_of (kv # pagerank) p)) ps"
    by (metis (mono_tags, lifting) map_eq_conv)
  then show ?case using ps kv by (simp add: rank_of_def)
qed

lemma sum_values_rank_of: "map fst pagerank = pages \<Longrightarrow> distinct pages \<Longrightarrow>
  sum_values pagerank = sum_list (map (rank_of pagerank) pages)"
  using vec_eq_map [of pagerank pages] sum_values_map [of "rank_of pagerank" pages] by simp

lemma sum_list_pos: "xs \<noteq> [] \<Longrightarrow> (\<And>x. x \<in> set xs \<Longrightarrow> 0 < (x::rat)) \<Longrightarrow> 0 < sum_list xs"
  by (induction xs) (auto simp: add_pos_nonneg sum_list_nonneg less_imp_le)

lemma link_share_nonneg:
  "0 \<le> damping \<Longrightarrow> 0 \<le> rank_of pagerank q \<Longrightarrow> 0 \<le> link_share g damping pagerank q"
  by (simp add: link_share_def)

lemma next_rank_lower:
  assumes "0 \<le> damping" "\<And>q. q \<in> set pages \<Longrightarrow> 0 \<le> rank_of pagerank q"
  shows "(1 - damping) / of_nat (length pages) \<le> next_rank g pages damping pagerank p"
proof -
  have "0 \<le> sum_list (map (rank_of pagerank) (dangling_nodes g pages))"
    using assms(2) by (intro sum_list_nonneg) (auto simp: dangling_nodes_def)
  then have a: "0 \<le> damping * (sum_list (map (rank_of pagerank) (dangling_nodes g pages)) / of_nat (length pages))"
    using assms(1) by simp
  have b: "0 \<le> sum_list (map (\<lambda>q. of_nat (count_list (graph_get g q) p) * link_share g damping pagerank q) pages)"
    using assms by (intro sum_list_nonneg) (auto simp: link_share_nonneg)
  show ?thesis unfolding next_rank_def using a b by linarith
qed

lemma next_rank_pos:
  assumes "pages \<noteq> []" "0 \<le> damping" "damping < 1" "\<And>q. q \<in> set pages \<Longrightarrow> 0 \<le> rank_of pagerank q"
  shows "0 < next_rank g pages damping pagerank p"
proof -
  have "0 < (1 - damping) / of_nat (length pages)"
    using assms(1,3) by simp
  moreover have "(1 - damping) / of_nat (length pages) \<le> next_rank g pages damping pagerank p"
    using assms(2,4) by (rule next_rank_lower)
  ultimately show ?thesis by linarith
qed

lemma count_list_sum_distinct:
  "distinct ps \<Longrightarrow> sum_list (map (\<lambda>p. count_list ts p) ps) = length (filter (\<lambda>t. t \<in> set ps) ts)"
proof (induction ts)
  case Nil
  then show ?case by simp
next
  case (Cons t ts)
  have "sum_list (map (\<lambda>p. if t = p then 1 else 0 :: nat) ps) = (if t \<in> set ps then 1 else 0)"
    using Cons.prems by (induction ps) auto
  moreover have "sum_list (map (\<lambda>p. count_list (t # ts) p) ps)
      = sum_list (map (\<lambda>p. count_list ts p) ps) + sum_list (map (\<lambda>p. if t = p then 1 else 0 :: nat) ps)"
    by (induction ps) auto
  ultimately show ?case using Cons by simp
qed

lemma sum_list_swap:
  "sum_list (map (\<lambda>p. sum_list (map (\<lambda>q. f p q) qs)) ps)
     = sum_list (map (\<lambda>q. sum_list (map (\<lambda>p. (f p q :: rat)) ps)) qs)"
  by (induction ps) (simp_all add: sum_list_addf)

lemma sum_list_const_rat: "sum_list (map (\<lambda>p. (c::rat)) ps) = of_nat (length ps) * c"
  by (induction ps) (simp_all add: algebra_simps)

lemma sum_count_rat:
  "distinct ps \<Longrightarrow>
   sum_list (map (\<lambda>p. (of_nat (count_list ts p) :: rat)) ps) = of_nat (length (filter (\<lambda>t. t \<in> set ps) ts))"
proof -
  assume "distinct ps"
  then have "sum_list (map (\<lambda>p. count_list ts p) ps) = length (filter (\<lambda>t. t \<in> set ps) ts)"
    by (rule count_list_sum_distinct)
  then have "(of_nat (sum_list (map (\<lambda>p. count_list ts p) ps)) :: rat) = of_nat (length (filter (\<lambda>t. t \<in> set ps) ts))"
    by simp
  moreover have "(of_nat (sum_list (map (\<lambda>p. count_list ts p) ps)) :: rat) = sum_list (map (\<lambda>p. of_nat (count_list ts p)) ps)"
    by (induction ps) simp_all
  ultimately show ?thesis by simp
qed

lemma sum_next_rank:
  assumes "pages \<noteq> []" "distinct pages"
  shows "sum_list (map (next_rank g pages damping pagerank) pages)
     = (1 - damping) + damping * sum_list (map (rank_of pagerank) (dangling_nodes g pages))
       + sum_list (map (\<lambda>q. of_nat (in_corpus g pages q) * link_share g damping pagerank q) pages)"
proof -
  let ?n = "of_nat (length pages) :: rat"
  let ?ds = "sum_list (map (rank_of pagerank) (dangling_nodes g pages))"
  have n: "?n \<noteq> 0" using assms(1) by simp
  have "sum_list (map (next_rank g pages damping pagerank) pages)
      = sum_list (map (\<lambda>p. (1 - damping) / ?n + damping * (?ds / ?n)) pages)
        + sum_list (map (\<lambda>p. sum_list (map (\<lambda>q. of_nat (count_list (graph_get g q) p) * link_share g damping pagerank q) pages)) pages)"
    unfolding next_rank_def by (simp add: sum_list_addf)
  also have "sum_list (map (\<lambda>p. (1 - damping) / ?n + damping * (?ds / ?n)) pages)
      = ?n * ((1 - damping) / ?n + damping * (?ds / ?n))"
    by (rule sum_list_const_rat)
  also have "\<dots> = (1 - damping) + damping * ?ds"
    using n by (simp add: field_simps)
  also have "sum_list (map (\<lambda>p. sum_list (map (\<lambda>q. of_nat (count_list (graph_get g q) p) * link_share g damping pagerank q) pages)) pages)
      = sum_list (map (\<lambda>q. sum_list (map (\<lambda>p. of_nat (count_list (graph_get g q) p) * link_share g damping pagerank q) pages)) pages)"
    by (rule sum_list_swap)
  also have "\<dots> = sum_list (map (\<lambda>q. of_nat (in_corpus g pages q) * link_share g damping pagerank q) pages)"
  proof -
    have "\<And>q. sum_list (map (\<lambda>p. of_nat (count_list (graph_get g q) p) * link_share g damping pagerank q) pages)
        = of_nat (in_corpus g pages q) * link_share g damping pagerank q"
      by (simp add: sum_list_mult_const in_corpus_def sum_count_rat [OF assms(2)])
    then show ?thesis by simp
  qed
  finally show ?thesis .
qed

lemma closed_in_corpus:
  "closed_graph g pages \<Longrightarrow> q \<in> set pages \<Longrightarrow> in_corpus g pages q = length (graph_get g q)"
  by (simp add: closed_graph_def in_corpus_def list_all_iff)

lemma sum_next_rank_closed:
  assumes "pages \<noteq> []" "distinct pages" "closed_graph g pages"
  shows "sum_list (map (next_rank g pages damping pagerank) pages)
     = (1 - damping) + damping * sum_list (map (rank_of pagerank) pages)"
proof -
  have ds: "sum_list (map (rank_of pagerank) (dangling_nodes g pages))
      = sum_list (map (\<lambda>q. if length (graph_get g q) = 0 then rank_of pagerank q else 0) pages)"
    unfolding dangling_nodes_def by (rule sum_list_map_filter')
  have "sum_list (map (\<lambda>q. of_nat (in_corpus g pages q) * link_share g damping pagerank q) pages)
      = sum_list (map (\<lambda>q. of_nat (length (graph_get g q)) * link_share g damping pagerank q) pages)"
    using closed_in_corpus [OF assms(3)] by (intro arg_cong [where f = sum_list] map_cong) auto
  also have "\<dots> = sum_list (map (\<lambda>q. if length (graph_get g q) = 0 then 0 else damping * rank_of pagerank q) pages)"
    by (intro arg_cong [where f = sum_list] map_cong) (auto simp: link_share_def)
  finally have ls: "sum_list (map (\<lambda>q. of_nat (in_corpus g pages q) * link_share g damping pagerank q) pages)
      = sum_list (map (\<lambda>q. if length (graph_get g q) = 0 then 0 else damping * rank_of pagerank q) pages)" .
  have "damping * sum_list (map (rank_of pagerank) (dangling_nodes g pages))
        + sum_list (map (\<lambda>q. of_nat (in_corpus g pages q) * link_share g damping pagerank q) pages)
      = sum_list (map (\<lambda>q. damping * (if length (graph_get g q) = 0 then rank_of pagerank q else 0)
           + (if length (graph_get g q) = 0 then 0 else damping * rank_of pagerank q)) pages)"
    unfolding ds ls by (simp add: sum_list_addf sum_list_const_mult)
  also have "\<dots> = sum_list (map (\<lambda>q. damping * rank_of pagerank q) pages)"
    by (intro arg_cong [where f = sum_list] map_cong) auto
  also have "\<dots> = damping * sum_list (map (rank_of pagerank) pages)"
    by (simp add: sum_list_const_mult)
  finally show ?thesis
    using sum_next_rank [OF assms(1,2), of g damping pagerank] by simp
qed

lemma sum_values_step_closed:
  assumes "pages \<noteq> []" "distinct pages" "closed_graph g pages" "map fst pagerank = pages"
  shows "sum_values (step_vec g pages damping pagerank) = (1 - damping) + damping * sum_values pagerank"
  using sum_next_rank_closed [OF assms(1,2,3)] sum_values_rank_of [OF assms(4,2)]
  by (simp add: step_vec_def sum_values_map)

lemma sum_values_initial: "pages \<noteq> [] \<Longrightarrow> sum_values (initial_vec pages) = 1"
  by (simp add: initial_vec_def sum_values_map sum_list_const_rat)

lemma iter_vec_Suc: "iter_vec g pages damping (Suc k) = step_vec g pages damping (iter_vec g pages damping k)"
  by (simp add: iter_vec_def)

lemma keys_iter_vec: "map fst (iter_vec g pages damping k) = pages"
  by (cases k) (simp_all add: iter_vec_def initial_vec_def step_vec_def comp_def)

lemma keys_set_iter_vec: "fst ` set (iter_vec g pages damping k) = set pages"
  using keys_iter_vec [of g pages damping k] by (metis set_map)

lemma init_pagerank_initial:
  "distinct pages \<Longrightarrow> init_pagerank (length pages) pages [] = Inr (initial_vec pages)"
proof (cases "pages = []")
  case True
  then show ?thesis by (simp add: initial_vec_def)
next
  case False
  assume "distinct pages"
  with False show ?thesis
    using init_pagerank_eq [of "length pages" pages "[]"] by (simp add: initial_vec_def)
qed

lemma iterate_pagerank_eq:
  assumes "pages \<noteq> []" "distinct pages"
  shows "iterate_pagerank g pages damping k = Inr (iter_vec g pages damping k)"
proof (induction k)
  case 0
  show ?case using assms(2) by (simp add: init_pagerank_initial iter_vec_def)
next
  case (Suc k)
  show ?case
    by (simp add: Suc iter_vec_Suc pagerank_iteration_eq [OF assms keys_set_iter_vec])
qed

lemma iter_vec_pos:
  assumes "pages \<noteq> []" "0 \<le> damping" "damping < 1" "q \<in> set pages"
  shows "0 < rank_of (iter_vec g pages damping k) q"
  using assms(4)
proof (induction k arbitrary: q)
  case 0
  with assms(1) show ?case by (simp add: iter_vec_def initial_vec_def rank_of_map)
next
  case (Suc k)
  have "0 < next_rank g pages damping (iter_vec g pages damping k) q"
    using assms(1,2,3) Suc.IH by (intro next_rank_pos) (auto simp: less_imp_le)
  with Suc.prems show ?case by (simp add: iter_vec_Suc step_vec_def rank_of_map)
qed

lemma sum_values_iter_pos:
  assumes "pages \<noteq> []" "distinct pages" "0 \<le> damping" "damping < 1"
  shows "0 < sum_values (iter_vec g pages damping k)"
proof -
  have "sum_values (iter_vec g pages damping k) = sum_list (map (rank_of (iter_vec g pages damping k)) pages)"
    using keys_iter_vec assms(2) by (rule sum_values_rank_of)
  also have "0 < \<dots>"
    using assms(1) iter_vec_pos [OF assms(1,3,4)] by (intro sum_list_pos) auto
  finally show ?thesis .
qed

lemma delta_at_eq:
  assumes "pages \<noteq> []" "distinct pages" "sum_values (iter_vec g pages damping (i - 1)) \<noteq> 0"
  shows "delta_at g pages damping i = Inr (pure_delta g pages damping i)"
  using assms(3)
  by (simp add: delta_at_def iterate_pagerank_eq [OF assms(1,2)] rel_change_def py_div_def pure_delta_def Let_def)

lemma loop_run:
  assumes "pages \<noteq> []" "distinct pages"
    and nz: "\<And>k. sum_values (iter_vec g pages damping k) \<noteq> 0"
  shows "\<exists>k. pagerank_loop g pages (build_incoming g pages) (dangling_nodes g pages) (length pages)
               damping tolerance max_iterations (iter_vec g pages damping j) (int j)
             = Inr (iter_vec g pages damping k, int k)
           \<and> j \<le> k
           \<and> (\<forall>i. j < i \<and> i < k \<longrightarrow> \<not> pure_delta g pages damping i < tolerance)
           \<and> (if int j < max_iterations
               then j < k \<and> int k \<le> max_iterations
                    \<and> (pure_delta g pages damping k < tolerance \<or> int k = max_iterations)
               else k = j)"
proof (induction "nat (max_iterations - int j)" arbitrary: j)
  case 0
  then have "\<not> int j < max_iterations" by simp
  then show ?case
    by (intro exI [of _ j]) (simp add: pagerank_loop.simps)
next
  case (Suc m)
  then have lt: "int j < max_iterations" by linarith
  let ?loop = "pagerank_loop g pages (build_incoming g pages) (dangling_nodes g pages) (length pages)
               damping tolerance max_iterations"
  have it: "pagerank_iteration g pages (build_incoming g pages) (dangling_nodes g pages) (length pages)
      damping (iter_vec g pages damping j) = Inr (iter_vec g pages damping (Suc j))"
    by (simp add: iter_vec_Suc pagerank_iteration_eq [OF assms(1,2) keys_set_iter_vec])
  have ch: "rel_change (iter_vec g pages damping j) (iter_vec g pages damping (Suc j))
      = Inr (pure_delta g pages damping (Suc j))"
    using nz [of j]
    by (simp add: rel_change_def py_div_def pure_delta_def Let_def)
  show ?case
  proof (cases "pure_delta g pages damping (Suc j) < tolerance")
    case True
    have "?loop (iter_vec g pages damping j) (int j) = Inr (iter_vec g pages damping (Suc j), int (Suc j))"
      using lt True by (subst pagerank_loop.simps) (simp add: it ch)
    then show ?thesis
      using lt True by (intro exI [of _ "Suc j"]) auto
  next
    case False
    have step: "?loop (iter_vec g pages damping j) (int j) = ?loop (iter_vec g pages damping (Suc j)) (int (Suc j))"
      using lt False by (subst pagerank_loop.simps) (simp add: it ch add.commute)
    have "m = nat (max_iterations - int (Suc j))" using Suc.hyps(2) by linarith
    from Suc.hyps(1) [OF this] obtain k where k:
      "?loop (iter_vec g pages damping (Suc j)) (int (Suc j)) = Inr (iter_vec g pages damping k, int k)"
      "Suc j \<le> k"
      "\<forall>i. Suc j < i \<and> i < k \<longrightarrow> \<not> pure_delta g pages damping i < tolerance"
      "if int (Suc j) < max_iterations
       then Suc j < k \<and> int k \<le> max_iterations
            \<and> (pure_delta g pages damping k < tolerance \<or> int k = max_iterations)
       else k = Suc j"
      by blast
    have a: "\<forall>i. j < i \<and> i < k \<longrightarrow> \<not> pure_delta g pages damping i < tolerance"
    proof (intro allI impI)
      fix i assume "j < i \<and> i < k"
      then have "i = Suc j \<or> (Suc j < i \<and> i < k)" by linarith
      then show "\<not> pure_delta g pages damping i < tolerance"
        using False k(3) by blast
    qed
    have b: "j < k \<and> int k \<le> max_iterations
            \<and> (pure_delta g pages damping k < tolerance \<or> int k = max_iterations)"
      using k(2,4) lt by (auto split: if_splits)
    show ?thesis
      using step k(1,2) a b lt by (intro exI [of _ k]) simp
  qed
qed

lemma compute_pagerank_loop:
  "distinct pages \<Longrightarrow> compute_pagerank g pages damping tolerance max_iterations
     = pagerank_loop g pages (build_incoming g pages) (dangling_nodes g pages) (length pages)
         damping tolerance max_iterations (initial_vec pages) 0"
  by (simp add: compute_pagerank_def init_pagerank_initial)

lemma compute_pagerank_run:
  assumes "pages \<noteq> []" "distinct pages"
    and nz: "\<And>k. sum_values (iter_vec g pages damping k) \<noteq> 0"
  shows "\<exists>k. compute_pagerank g pages damping tolerance max_iterations = Inr (iter_vec g pages damping k, int k)
           \<and> (\<forall>i. 0 < i \<and> i < k \<longrightarrow> \<not> pure_delta g pages damping i < tolerance)
           \<and> (if 0 < max_iterations
               then 0 < k \<and> int k \<le> max_iterations
                    \<and> (pure_delta g pages damping k < tolerance \<or> int k = max_iterations)
               else k = 0)"
  using loop_run [OF assms, of tolerance max_iterations 0]
  by (simp add: compute_pagerank_loop [OF assms(2)] iter_vec_def)

lemma sum_values_iter_closed:
  assumes "pages \<noteq> []" "distinct pages" "closed_graph g pages"
  shows "sum_values (iter_vec g pages damping k) = 1"
proof (induction k)
  case 0
  show ?case using assms(1) by (simp add: iter_vec_def sum_values_initial)
next
  case (Suc k)
  show ?case
    using sum_values_step_closed [OF assms keys_iter_vec [of g pages damping k], of damping] Suc
    by (simp add: iter_vec_Suc)
qed

lemma sum_values_iter_nz:
  assumes "pages \<noteq> []" "distinct pages" "0 \<le> damping" "damping < 1"
  shows "sum_values (iter_vec g pages damping k) \<noteq> 0"
  using sum_values_iter_pos [OF assms, where g = g and k = k] by simp


lemmas engine_eval = compute_pagerank_def pagerank_loop.simps pagerank_iteration_def rel_change_def
  sum_values_def ebind_def py_div_def dict_get_def build_incoming_def incoming_append_def
  dangling_nodes_def graph_get_def delta_at_def

subsection \<open>Stopping rule and iteration count\<close>



subsection \<open>Targets outside the page set\<close>

text \<open>
  Claim C8. For a non-empty page set and a damping factor in (0,1), whatever the graph
  (in particular with edges to targets outside the page set), the engine returns a
  result, and the keys of the returned rank vector are exactly the pages: a target
  outside the page set has no entry (reading it raises KeyError).
\<close>

theorem phantom_targets_get_no_rank:
  assumes "pages \<noteq> []" "distinct pages" "0 < damping" "damping < 1"
  shows "\<exists>vec k. compute_pagerank g pages damping tolerance max_iterations = Inr (vec, k)
     \<and> map fst vec = pages
     \<and> (\<forall>t. t \<notin> set pages \<longrightarrow> dict_get vec t = Inl KeyError)"
proof -
  have d: "0 \<le> damping" using assms(3) by simp
  have nz: "\<And>k. sum_values (iter_vec g pages damping k) \<noteq> 0"
    using assms(1,2) d assms(4) by (rule sum_values_iter_nz)
  from compute_pagerank_run [OF assms(1,2) nz, where tolerance = tolerance and max_iterations = max_iterations]
  obtain k where k:
    "compute_pagerank g pages damping tolerance max_iterations = Inr (iter_vec g pages damping k, int k)"
    by blast
  have "\<forall>t. t \<notin> set pages \<longrightarrow> dict_get (iter_vec g pages damping k) t = Inl KeyError"
    using keys_set_iter_vec [of g pages damping k]
    by (simp add: dict_get_def map_of_eq_None_iff [THEN iffD2])
  then show ?thesis
    using k keys_iter_vec [of g pages damping k] by blast
qed

text \<open>
  Witness for C8: page 0 links to 1 and 7, neither of which is a page; the result has
  the single key 0.
\<close>

theorem phantom_targets_get_no_rank_witness:
  "\<exists>vec k. compute_pagerank [0 \<mapsto> [1, 7]] [0::int] (17/20) (1/200) 100 = Inr (vec, k)
     \<and> map fst vec = [0] \<and> dict_get vec 7 = Inl KeyError \<and> 7 \<in> set (graph_get [0 \<mapsto> [1, 7::int]] 0)"
  using phantom_targets_get_no_rank [where pages = "[0::int]" and damping = "17/20"
      and tolerance = "1/200" and max_iterations = 100 and g = "[0 \<mapsto> [1, 7]]"]
  by (auto simp: graph_get_def)

subsection \<open>Graphs whose targets are all pages\<close>

text \<open>
  Claim C5. For a non-empty page set and a graph all of whose edge targets are pages, an
  iteration maps a vector of total 1 to a vector of total 1, the relative change after
  the first iteration is exactly 0, and the engine returns the vector of the first
  iteration with iteration count 1, for every positive tolerance (and every damping
  factor, \<open>max_iterations\<close> being at least 1).
\<close>

theorem closed_graph_one_iteration:
  assumes "pages \<noteq> []" "distinct pages" "closed_graph g pages" "0 < tolerance" "0 < max_iterations"
  shows "\<exists>vec. compute_pagerank g pages damping tolerance max_iterations = Inr (vec, 1)
     \<and> iterate_pagerank g pages damping 1 = Inr vec
     \<and> sum_values vec = 1
     \<and> delta_at g pages damping 1 = Inr 0
     \<and> (\<forall>pagerank. map fst pagerank = pages \<and> sum_values pagerank = 1 \<longrightarrow>
          (\<exists>new_pagerank.
             pagerank_iteration g pages (build_incoming g pages) (dangling_nodes g pages)
               (length pages) damping pagerank = Inr new_pagerank
             \<and> map fst new_pagerank = pages \<and> sum_values new_pagerank = 1))"
proof -
  have one: "\<And>k. sum_values (iter_vec g pages damping k) = 1"
    using assms(1,2,3) by (rule sum_values_iter_closed)
  then have nz: "\<And>k. sum_values (iter_vec g pages damping k) \<noteq> 0" by simp
  have pd: "\<And>i. pure_delta g pages damping i = 0"
    by (simp add: pure_delta_def one)
  from compute_pagerank_run [OF assms(1,2) nz, where tolerance = tolerance and max_iterations = max_iterations]
  obtain k where k:
    "compute_pagerank g pages damping tolerance max_iterations = Inr (iter_vec g pages damping k, int k)"
    "\<forall>i. 0 < i \<and> i < k \<longrightarrow> \<not> pure_delta g pages damping i < tolerance"
    "0 < k"
    using assms(5) by auto
  have "\<not> 1 < k"
  proof
    assume "1 < k"
    with k(2) have "\<not> pure_delta g pages damping 1 < tolerance" by simp
    with pd assms(4) show False by simp
  qed
  with k(3) have k1: "k = 1" by simp
  have step: "\<forall>pagerank. map fst pagerank = pages \<and> sum_values pagerank = 1 \<longrightarrow>
          (\<exists>new_pagerank.
             pagerank_iteration g pages (build_incoming g pages) (dangling_nodes g pages)
               (length pages) damping pagerank = Inr new_pagerank
             \<and> map fst new_pagerank = pages \<and> sum_values new_pagerank = 1)"
  proof (intro allI impI)
    fix pagerank :: "'a rankvec"
    assume a: "map fst pagerank = pages \<and> sum_values pagerank = 1"
    then have ks: "fst ` set pagerank = set pages" by (metis set_map)
    have "pagerank_iteration g pages (build_incoming g pages) (dangling_nodes g pages)
               (length pages) damping pagerank = Inr (step_vec g pages damping pagerank)"
      using assms(1,2) ks by (rule pagerank_iteration_eq)
    moreover have "map fst (step_vec g pages damping pagerank) = pages"
      by (simp add: step_vec_def comp_def)
    moreover have "sum_values (step_vec g pages damping pagerank) = 1"
      using sum_values_step_closed [OF assms(1,2,3), of pagerank damping] a by simp
    ultimately show "\<exists>new_pagerank.
             pagerank_iteration g pages (build_incoming g pages) (dangling_nodes g pages)
               (length pages) damping pagerank = Inr new_pagerank
             \<and> map fst new_pagerank = pages \<and> sum_values new_pagerank = 1"
      by blast
  qed
  have "delta_at g pages damping 1 = Inr 0"
    using delta_at_eq [OF assms(1,2) nz, of 1] pd by simp
  then show ?thesis
    using k(1) k1 one [of 1] step
    by (intro exI [of _ "iter_vec g pages damping 1"])
       (simp add: iterate_pagerank_eq [OF assms(1,2)] del: iterate_pagerank.simps)
qed

text \<open>
  Witness for C5: on the chain 0 \<rightarrow> 1 the engine returns after one iteration
  although a second iteration would still change both ranks.
\<close>

theorem closed_graph_one_iteration_witness:
  "compute_pagerank [0 \<mapsto> [1], 1 \<mapsto> []] [0::int, 1] (17/20) (1/200) 100
       = Inr ([(0, 23/80), (1, 57/80)], 1)
   \<and> iterate_pagerank [0 \<mapsto> [1], 1 \<mapsto> []] [0::int, 1] (17/20) 2
       = Inr [(0, 1209/3200), (1, 1991/3200)]"
proof -
  have c: "closed_graph [0 \<mapsto> [1], 1 \<mapsto> []] [0::int, 1]"
    by (simp add: closed_graph_def graph_get_def)
  have i1: "iterate_pagerank [0 \<mapsto> [1], 1 \<mapsto> []] [0::int, 1] (17/20) 1 = Inr [(0, 23/80), (1, 57/80)]"
    by (simp add: engine_eval)
  have i2: "iterate_pagerank [0 \<mapsto> [1], 1 \<mapsto> []] [0::int, 1] (17/20) 2 = Inr [(0, 1209/3200), (1, 1991/3200)]"
    unfolding numeral_2_eq_2 iterate_pagerank.simps(2) [of _ _ _ "Suc 0"] using i1
    by (simp add: engine_eval del: iterate_pagerank.simps)
  from closed_graph_one_iteration [where pages = "[0::int, 1]" and g = "[0 \<mapsto> [1], 1 \<mapsto> []]"
      and tolerance = "1/200" and max_iterations = 100 and damping = "17/20", OF _ _ c]
  obtain vec where
    "compute_pagerank [0 \<mapsto> [1], 1 \<mapsto> []] [0::int, 1] (17/20) (1/200) 100 = Inr (vec, 1)"
    "iterate_pagerank [0 \<mapsto> [1], 1 \<mapsto> []] [0::int, 1] (17/20) 1 = Inr vec"
    by auto
  with i1 i2 show ?thesis by simp
qed

lemma next_rank_per_link: "next_rank g pages damping pagerank p = new_rank_per_link g pages damping pagerank p"
proof -
  have "sum_list (map (\<lambda>q. of_nat (count_list (graph_get g q) p) * link_share g damping pagerank q) pages)
      = sum_list (map (\<lambda>q. if 0 < length (graph_get g q)
            then damping * (of_nat (count_list (graph_get g q) p) * (rank_of pagerank q / of_nat (length (graph_get g q))))
            else 0) pages)"
    by (intro arg_cong [where f = sum_list] map_cong) (auto simp: link_share_def)
  also have "\<dots> = sum_list (map (\<lambda>q. damping * (of_nat (count_list (graph_get g q) p) * (rank_of pagerank q / of_nat (length (graph_get g q)))))
          (filter (\<lambda>q. 0 < length (graph_get g q)) pages))"
    by (rule sum_list_map_filter' [symmetric])
  also have "\<dots> = damping * sum_list (map (\<lambda>q. of_nat (count_list (graph_get g q) p) * (rank_of pagerank q / of_nat (length (graph_get g q))))
          (filter (\<lambda>q. 0 < length (graph_get g q)) pages))"
    by (rule sum_list_const_mult)
  finally show ?thesis
    by (simp add: next_rank_def new_rank_per_link_def dangling_nodes_def)
qed

lemma count_list_distinct: "distinct xs \<Longrightarrow> count_list xs p = (if p \<in> set xs then 1 else 0)"
  by (induction xs) auto

lemma per_link_spec:
  assumes "distinct pages" "\<And>q. q \<in> set pages \<Longrightarrow> distinct (graph_get g q)"
  shows "new_rank_per_link g pages damping pagerank p = spec_new_rank g pages damping pagerank p"
proof -
  let ?f = "\<lambda>q. rank_of pagerank q / of_nat (length (graph_get g q))"
  have "sum_list (map (\<lambda>q. of_nat (count_list (graph_get g q) p) * ?f q) (filter (\<lambda>q. 0 < length (graph_get g q)) pages))
      = sum_list (map (\<lambda>q. if p \<in> set (graph_get g q) then ?f q else 0) (filter (\<lambda>q. 0 < length (graph_get g q)) pages))"
    using assms(2) by (intro arg_cong [where f = sum_list] map_cong) (auto simp: count_list_distinct)
  also have "\<dots> = sum_list (map ?f (filter (\<lambda>q. p \<in> set (graph_get g q)) (filter (\<lambda>q. 0 < length (graph_get g q)) pages)))"
    by (rule sum_list_map_filter' [symmetric])
  also have "filter (\<lambda>q. p \<in> set (graph_get g q)) (filter (\<lambda>q. 0 < length (graph_get g q)) pages)
      = filter (\<lambda>q. p \<in> set (graph_get g q) \<and> 0 < length (graph_get g q)) pages"
    by (simp add: conj_commute)
  also have "sum_list (map ?f (filter (\<lambda>q. p \<in> set (graph_get g q) \<and> 0 < length (graph_get g q)) pages))
      = sum ?f (set (filter (\<lambda>q. p \<in> set (graph_get g q) \<and> 0 < length (graph_get g q)) pages))"
    using assms(1) by (intro sum_list_distinct_conv_sum_set) simp
  finally show ?thesis
    by (simp add: new_rank_per_link_def spec_new_rank_def)
qed

subsection \<open>The rank formula of one iteration\<close>

text \<open>
  Claim C2, as amended. One iteration gives every page \<open>p\<close> the rank
  \<open>(1-d)/n + d * danglingSum/n + d * \<Sum>q. c(q,p) * rank[q] / outDegree(q)\<close>, the sum being over the
  pages \<open>q\<close> with \<open>outDegree(q) > 0\<close> and \<open>c(q,p)\<close> the number of times \<open>p\<close> occurs among the
  targets of \<open>q\<close>; all ranks are read from the previous vector, and the first vector is
  uniformly \<open>1/n\<close>. Where no page lists a target twice this is the formula of the claim
  as stated (\<open>spec_new_rank\<close>).
\<close>

theorem iteration_counts_every_link:
  assumes "pages \<noteq> []" "distinct pages" "map fst pagerank = pages"
  shows "\<exists>new_pagerank.
     pagerank_iteration g pages (build_incoming g pages) (dangling_nodes g pages) (length pages)
       damping pagerank = Inr new_pagerank
     \<and> map fst new_pagerank = pages
     \<and> (\<forall>p. p \<in> set pages \<longrightarrow>
          dict_get new_pagerank p = Inr (new_rank_per_link g pages damping pagerank p))
     \<and> ((\<forall>q. q \<in> set pages \<longrightarrow> distinct (graph_get g q)) \<longrightarrow>
          (\<forall>p. p \<in> set pages \<longrightarrow>
             dict_get new_pagerank p = Inr (spec_new_rank g pages damping pagerank p)))
     \<and> init_pagerank (length pages) pages [] = Inr (map (\<lambda>p. (p, 1 / of_nat (length pages))) pages)"
proof -
  have ks: "fst ` set pagerank = set pages" using assms(3) by (metis set_map)
  have it: "pagerank_iteration g pages (build_incoming g pages) (dangling_nodes g pages) (length pages)
       damping pagerank = Inr (step_vec g pages damping pagerank)"
    using assms(1,2) ks by (rule pagerank_iteration_eq)
  have keys: "map fst (step_vec g pages damping pagerank) = pages"
    by (simp add: step_vec_def comp_def)
  have get: "\<And>p. p \<in> set pages \<Longrightarrow>
      dict_get (step_vec g pages damping pagerank) p = Inr (new_rank_per_link g pages damping pagerank p)"
    by (simp add: dict_get_def step_vec_def map_of_map_restrict next_rank_per_link)
  have init: "init_pagerank (length pages) pages [] = Inr (map (\<lambda>p. (p, 1 / of_nat (length pages))) pages)"
    using init_pagerank_initial [OF assms(2)] by (simp add: initial_vec_def)
  show ?thesis
    using it keys get init per_link_spec [OF assms(2), of g damping pagerank]
    by (intro exI [of _ "step_vec g pages damping pagerank"]) simp
qed

text \<open>Witness for C2: page 0 links to page 1 twice and contributes twice.\<close>

theorem iteration_counts_every_link_witness:
  "\<exists>new_pagerank.
     pagerank_iteration [0 \<mapsto> [1, 1], 1 \<mapsto> [0]] [0::int, 1]
       (build_incoming [0 \<mapsto> [1, 1], 1 \<mapsto> [0]] [0, 1]) (dangling_nodes [0 \<mapsto> [1, 1], 1 \<mapsto> [0]] [0, 1])
       2 (1/2) [(0, 1/2), (1, 1/2)] = Inr new_pagerank
     \<and> dict_get new_pagerank 1 = Inr (new_rank_per_link [0 \<mapsto> [1, 1], 1 \<mapsto> [0]] [0::int, 1] (1/2) [(0, 1/2), (1, 1/2)] 1)
     \<and> new_rank_per_link [0 \<mapsto> [1, 1], 1 \<mapsto> [0]] [0::int, 1] (1/2) [(0, 1/2), (1, 1/2)] 1 = 1/2"
proof -
  have v: "new_rank_per_link [0 \<mapsto> [1, 1], 1 \<mapsto> [0]] [0::int, 1] (1/2) [(0, 1/2), (1, 1/2)] 1 = 1/2"
    by (simp add: new_rank_per_link_def graph_get_def rank_of_def)
  have p1: "[0::int, 1] \<noteq> []" and p2: "distinct [0::int, 1]"
    and p3: "map fst [(0::int, 1/2::rat), (1, 1/2)] = [0, 1]"
    by simp_all
  from iteration_counts_every_link [where g = "[0 \<mapsto> [1, 1], 1 \<mapsto> [0]]" and damping = "1/2", OF p1 p2 p3]
  obtain new_pagerank where n:
    "pagerank_iteration [0 \<mapsto> [1, 1], 1 \<mapsto> [0]] [0::int, 1]
       (build_incoming [0 \<mapsto> [1, 1], 1 \<mapsto> [0]] [0, 1]) (dangling_nodes [0 \<mapsto> [1, 1], 1 \<mapsto> [0]] [0, 1])
       (length [0::int, 1]) (1/2) [(0, 1/2), (1, 1/2)] = Inr new_pagerank"
    "\<forall>p. p \<in> set [0::int, 1] \<longrightarrow>
       dict_get new_pagerank p = Inr (new_rank_per_link [0 \<mapsto> [1, 1], 1 \<mapsto> [0]] [0, 1] (1/2) [(0, 1/2), (1, 1/2)] p)"
    by blast
  from n(2) have "dict_get new_pagerank 1
      = Inr (new_rank_per_link [0 \<mapsto> [1, 1], 1 \<mapsto> [0]] [0::int, 1] (1/2) [(0, 1/2), (1, 1/2)] 1)"
    by simp
  with n(1) v show ?thesis
    by (intro exI [of _ new_pagerank]) (simp add: numeral_2_eq_2)
qed

text \<open>
  Counterexample to C2 as stated: with the edges 0 \<rightarrow> 1, 0 \<rightarrow> 1, 1 \<rightarrow> 0 and damping 1/2 the
  iteration gives page 1 the rank 1/2, while the sum over the pages that link to page 1,
  each counted once, gives 3/8.
\<close>

theorem duplicate_link_counted_twice:
  "pagerank_iteration [0 \<mapsto> [1, 1], 1 \<mapsto> [0]] [0::int, 1]
       (build_incoming [0 \<mapsto> [1, 1], 1 \<mapsto> [0]] [0, 1]) (dangling_nodes [0 \<mapsto> [1, 1], 1 \<mapsto> [0]] [0, 1])
       2 (1/2) [(0, 1/2), (1, 1/2)] = Inr [(0, 1/2), (1, 1/2)]
   \<and> spec_new_rank [0 \<mapsto> [1, 1], 1 \<mapsto> [0]] [0::int, 1] (1/2) [(0, 1/2), (1, 1/2)] 1 = 3/8
   \<and> init_pagerank 2 [0::int, 1] [] = Inr [(0, 1/2), (1, 1/2)]"
  by (simp add: engine_eval spec_new_rank_def rank_of_def)

subsection \<open>Total rank mass\<close>

lemma sum_next_rank_kept:
  assumes "pages \<noteq> []" "distinct pages"
  shows "sum_list (map (next_rank g pages damping pagerank) pages)
     = (1 - damping) + sum_list (map (kept_share g pages damping pagerank) pages)"
proof -
  have ds: "sum_list (map (rank_of pagerank) (dangling_nodes g pages))
      = sum_list (map (\<lambda>q. if length (graph_get g q) = 0 then rank_of pagerank q else 0) pages)"
    unfolding dangling_nodes_def by (rule sum_list_map_filter')
  have "damping * sum_list (map (rank_of pagerank) (dangling_nodes g pages))
        + sum_list (map (\<lambda>q. of_nat (in_corpus g pages q) * link_share g damping pagerank q) pages)
      = sum_list (map (\<lambda>q. damping * (if length (graph_get g q) = 0 then rank_of pagerank q else 0)
           + of_nat (in_corpus g pages q) * link_share g damping pagerank q) pages)"
    unfolding ds by (simp add: sum_list_addf sum_list_const_mult)
  also have "\<dots> = sum_list (map (kept_share g pages damping pagerank) pages)"
    by (intro arg_cong [where f = sum_list] map_cong) (auto simp: kept_share_def link_share_def)
  finally show ?thesis
    using sum_next_rank [OF assms, of g damping pagerank] by simp
qed

lemma in_corpus_le: "in_corpus g pages q \<le> length (graph_get g q)"
  by (simp add: in_corpus_def)

lemma kept_share_bounds:
  assumes "0 \<le> damping" "0 \<le> rank_of pagerank q"
  shows "0 \<le> kept_share g pages damping pagerank q"
    and "kept_share g pages damping pagerank q \<le> damping * rank_of pagerank q"
proof -
  show "0 \<le> kept_share g pages damping pagerank q"
    using assms by (simp add: kept_share_def)
  show "kept_share g pages damping pagerank q \<le> damping * rank_of pagerank q"
  proof (cases "length (graph_get g q) = 0")
    case True
    then show ?thesis by (simp add: kept_share_def)
  next
    case False
    let ?n = "of_nat (length (graph_get g q)) :: rat"
    have n: "0 < ?n" using False by simp
    have "(of_nat (in_corpus g pages q) :: rat) \<le> ?n"
      using in_corpus_le [of g pages q] by simp
    moreover have "0 \<le> damping * (rank_of pagerank q / ?n)"
      using assms n by simp
    ultimately have "of_nat (in_corpus g pages q) * (damping * (rank_of pagerank q / ?n))
        \<le> ?n * (damping * (rank_of pagerank q / ?n))"
      by (rule mult_right_mono)
    also have "\<dots> = damping * rank_of pagerank q"
      using n by simp
    finally show ?thesis using False by (simp add: kept_share_def)
  qed
qed

lemma kept_share_strict:
  assumes "0 < damping" "0 < rank_of pagerank q" "in_corpus g pages q < length (graph_get g q)"
  shows "kept_share g pages damping pagerank q < damping * rank_of pagerank q"
proof -
  let ?n = "of_nat (length (graph_get g q)) :: rat"
  have "0 < length (graph_get g q)" using assms(3) by linarith
  then have n: "0 < ?n" by simp
  have "(of_nat (in_corpus g pages q) :: rat) < ?n"
    using assms(3) by simp
  moreover have "0 < damping * (rank_of pagerank q / ?n)"
    using assms(1,2) n by simp
  ultimately have "of_nat (in_corpus g pages q) * (damping * (rank_of pagerank q / ?n))
      < ?n * (damping * (rank_of pagerank q / ?n))"
    by (rule mult_strict_right_mono)
  also have "\<dots> = damping * rank_of pagerank q"
    using n by simp
  finally show ?thesis using \<open>0 < length (graph_get g q)\<close> by (simp add: kept_share_def)
qed

lemma not_closed_edge:
  "\<not> closed_graph g pages \<Longrightarrow> \<exists>q \<in> set pages. in_corpus g pages q < length (graph_get g q)"
proof -
  assume "\<not> closed_graph g pages"
  then obtain q t where q: "q \<in> set pages" "t \<in> set (graph_get g q)" "t \<notin> set pages"
    by (auto simp: closed_graph_def list_all_iff)
  then have "length (filter (\<lambda>t. t \<in> set pages) (graph_get g q)) < length (graph_get g q)"
    by (intro length_filter_less [of t]) auto
  with q(1) show ?thesis by (auto simp: in_corpus_def)
qed

lemma step_total_bounds:
  assumes "pages \<noteq> []" "distinct pages" "0 < damping" "map fst pagerank = pages"
    and pos: "\<And>q. q \<in> set pages \<Longrightarrow> 0 < rank_of pagerank q"
  shows "1 - damping \<le> sum_values (step_vec g pages damping pagerank)"
    and "sum_values (step_vec g pages damping pagerank) \<le> (1 - damping) + damping * sum_values pagerank"
    and "\<not> closed_graph g pages \<Longrightarrow>
           sum_values (step_vec g pages damping pagerank) < (1 - damping) + damping * sum_values pagerank"
proof -
  let ?k = "kept_share g pages damping pagerank"
  have d: "0 \<le> damping" using assms(3) by simp
  have nn: "\<And>q. q \<in> set pages \<Longrightarrow> 0 \<le> rank_of pagerank q"
    using pos by (simp add: less_imp_le)
  have total: "sum_values (step_vec g pages damping pagerank) = (1 - damping) + sum ?k (set pages)"
    using sum_next_rank_kept [OF assms(1,2), of g damping pagerank] assms(2)
    by (simp add: step_vec_def sum_values_map sum_list_distinct_conv_sum_set)
  have old: "damping * sum_values pagerank = sum (\<lambda>q. damping * rank_of pagerank q) (set pages)"
    using sum_values_rank_of [OF assms(4,2)] assms(2)
    by (simp add: sum_list_distinct_conv_sum_set sum_distrib_left)
  have "0 \<le> sum ?k (set pages)"
    using kept_share_bounds(1) [OF d nn] by (intro sum_nonneg) simp
  then show "1 - damping \<le> sum_values (step_vec g pages damping pagerank)"
    using total by simp
  have "sum ?k (set pages) \<le> sum (\<lambda>q. damping * rank_of pagerank q) (set pages)"
    using kept_share_bounds(2) [OF d nn] by (intro sum_mono) simp
  then show "sum_values (step_vec g pages damping pagerank) \<le> (1 - damping) + damping * sum_values pagerank"
    using total old by simp
  show "sum_values (step_vec g pages damping pagerank) < (1 - damping) + damping * sum_values pagerank"
    if "\<not> closed_graph g pages"
  proof -
    from not_closed_edge [OF that] obtain q where q: "q \<in> set pages"
      "in_corpus g pages q < length (graph_get g q)" by blast
    have "?k q < damping * rank_of pagerank q"
      using assms(3) pos [OF q(1)] q(2) by (rule kept_share_strict)
    with q(1) have "\<exists>a \<in> set pages. ?k a < damping * rank_of pagerank a" by blast
    moreover have "\<forall>q \<in> set pages. ?k q \<le> damping * rank_of pagerank q"
      using kept_share_bounds(2) [OF d nn] by simp
    ultimately have "sum ?k (set pages) < sum (\<lambda>q. damping * rank_of pagerank q) (set pages)"
      by (intro sum_strict_mono_ex1) simp_all
    then show ?thesis using total old by simp
  qed
qed

lemma iter_total_le_one:
  assumes "pages \<noteq> []" "distinct pages" "0 < damping" "damping < 1"
  shows "sum_values (iter_vec g pages damping k) \<le> 1"
proof (induction k)
  case 0
  show ?case using assms(1) by (simp add: iter_vec_def sum_values_initial)
next
  case (Suc k)
  have d: "0 \<le> damping" using assms(3) by simp
  have "sum_values (iter_vec g pages damping (Suc k))
      \<le> (1 - damping) + damping * sum_values (iter_vec g pages damping k)"
    unfolding iter_vec_Suc
    using assms(1,2,3) keys_iter_vec iter_vec_pos [OF assms(1) d assms(4)]
    by (rule step_total_bounds(2))
  also have "\<dots> \<le> (1 - damping) + damping * 1"
    using Suc d by (intro add_left_mono mult_left_mono) simp_all
  finally show ?case by simp
qed

lemma iter_total_leaking:
  assumes "pages \<noteq> []" "distinct pages" "0 < damping" "damping < 1" "0 < k"
  shows "1 - damping \<le> sum_values (iter_vec g pages damping k)"
    and "\<not> closed_graph g pages \<Longrightarrow> sum_values (iter_vec g pages damping k) < 1"
proof -
  from assms(5) obtain j where k: "k = Suc j" by (cases k) auto
  have d: "0 \<le> damping" using assms(3) by simp
  show "1 - damping \<le> sum_values (iter_vec g pages damping k)"
    unfolding k iter_vec_Suc
    using assms(1,2,3) keys_iter_vec iter_vec_pos [OF assms(1) d assms(4)]
    by (rule step_total_bounds(1))
  show "sum_values (iter_vec g pages damping k) < 1" if nc: "\<not> closed_graph g pages"
  proof -
    have "sum_values (iter_vec g pages damping k)
        < (1 - damping) + damping * sum_values (iter_vec g pages damping j)"
      unfolding k iter_vec_Suc
      using assms(1,2,3) keys_iter_vec iter_vec_pos [OF assms(1) d assms(4)] nc
      by (rule step_total_bounds(3))
    also have "\<dots> \<le> (1 - damping) + damping * 1"
      using iter_total_le_one [OF assms(1,2,3,4), of g j] d
      by (intro add_left_mono mult_left_mono) simp_all
    finally show ?thesis by simp
  qed
qed

text \<open>
  Claim C1, as amended. In exact arithmetic, for a non-empty page set and a damping
  factor \<open>d\<close> in (0,1): if every edge target is a page, the ranks sum to exactly 1 after
  every iteration, and so do the ranks the engine returns; if some page has an edge to a
  target outside the page set, the share of rank carried by such edges is dropped, and
  the ranks sum to at least \<open>1 - d\<close> and to less than 1 after every iteration, as do the
  ranks the engine returns once it has iterated.
\<close>

theorem total_rank_one_or_below:
  assumes "pages \<noteq> []" "distinct pages" "0 < damping" "damping < 1"
  shows "(\<exists>vec. iterate_pagerank g pages damping k = Inr vec
            \<and> (closed_graph g pages \<longrightarrow> sum_values vec = 1)
            \<and> (\<not> closed_graph g pages \<and> 0 < k \<longrightarrow>
                 1 - damping \<le> sum_values vec \<and> sum_values vec < 1))
     \<and> (\<exists>vec n. compute_pagerank g pages damping tolerance max_iterations = Inr (vec, n)
            \<and> (closed_graph g pages \<longrightarrow> sum_values vec = 1)
            \<and> (\<not> closed_graph g pages \<and> 0 < max_iterations \<longrightarrow>
                 1 - damping \<le> sum_values vec \<and> sum_values vec < 1))"
proof -
  have d: "0 \<le> damping" using assms(3) by simp
  have nz: "\<And>k. sum_values (iter_vec g pages damping k) \<noteq> 0"
    using assms(1,2) d assms(4) by (rule sum_values_iter_nz)
  have P: "(closed_graph g pages \<longrightarrow> sum_values (iter_vec g pages damping j) = 1)
            \<and> (\<not> closed_graph g pages \<and> 0 < j \<longrightarrow>
                 1 - damping \<le> sum_values (iter_vec g pages damping j)
                 \<and> sum_values (iter_vec g pages damping j) < 1)" for j
    using sum_values_iter_closed [OF assms(1,2), of g damping j]
      iter_total_leaking [OF assms, of j g]
    by blast
  from compute_pagerank_run [OF assms(1,2) nz, where tolerance = tolerance and max_iterations = max_iterations]
  obtain n where n:
    "compute_pagerank g pages damping tolerance max_iterations = Inr (iter_vec g pages damping n, int n)"
    "0 < max_iterations \<longrightarrow> 0 < n"
    by (auto split: if_splits)
  have "\<exists>vec. iterate_pagerank g pages damping k = Inr vec
            \<and> (closed_graph g pages \<longrightarrow> sum_values vec = 1)
            \<and> (\<not> closed_graph g pages \<and> 0 < k \<longrightarrow>
                 1 - damping \<le> sum_values vec \<and> sum_values vec < 1)"
    using P [of k] by (simp add: iterate_pagerank_eq [OF assms(1,2)] del: iterate_pagerank.simps)
  moreover have "\<exists>vec n. compute_pagerank g pages damping tolerance max_iterations = Inr (vec, n)
            \<and> (closed_graph g pages \<longrightarrow> sum_values vec = 1)
            \<and> (\<not> closed_graph g pages \<and> 0 < max_iterations \<longrightarrow>
                 1 - damping \<le> sum_values vec \<and> sum_values vec < 1)"
    using n P [of n] by auto
  ultimately show ?thesis by blast
qed

text \<open>
  Witness for C1: the chain 0 \<rightarrow> 1, and the same chain with a second link from 0 to 7,
  which is not a page.
\<close>

theorem total_rank_one_or_below_witness:
  "(\<exists>vec. iterate_pagerank [0 \<mapsto> [1], 1 \<mapsto> []] [0::int, 1] (17/20) 5 = Inr vec \<and> sum_values vec = 1)
   \<and> (\<exists>vec n. compute_pagerank [0 \<mapsto> [1], 1 \<mapsto> []] [0::int, 1] (17/20) (1/200) 100 = Inr (vec, n)
         \<and> sum_values vec = 1)
   \<and> (\<exists>vec. iterate_pagerank [0 \<mapsto> [1, 7], 1 \<mapsto> []] [0::int, 1] (17/20) 5 = Inr vec
         \<and> 3/20 \<le> sum_values vec \<and> sum_values vec < 1)
   \<and> (\<exists>vec n. compute_pagerank [0 \<mapsto> [1, 7], 1 \<mapsto> []] [0::int, 1] (17/20) (1/200) 100 = Inr (vec, n)
         \<and> 3/20 \<le> sum_values vec \<and> sum_values vec < 1)"
proof -
  have c: "closed_graph [0 \<mapsto> [1], 1 \<mapsto> []] [0::int, 1]"
    by (simp add: closed_graph_def graph_get_def)
  have nc: "\<not> closed_graph [0 \<mapsto> [1, 7], 1 \<mapsto> []] [0::int, 1]"
    by (simp add: closed_graph_def graph_get_def)
  have p: "[0::int, 1] \<noteq> []" "distinct [0::int, 1]" "(0::rat) < 17/20" "(17/20::rat) < 1"
    by simp_all
  from total_rank_one_or_below [OF p, of "[0 \<mapsto> [1], 1 \<mapsto> []]" 5 "1/200" 100] c
  have 1: "(\<exists>vec. iterate_pagerank [0 \<mapsto> [1], 1 \<mapsto> []] [0::int, 1] (17/20) 5 = Inr vec \<and> sum_values vec = 1)
   \<and> (\<exists>vec n. compute_pagerank [0 \<mapsto> [1], 1 \<mapsto> []] [0::int, 1] (17/20) (1/200) 100 = Inr (vec, n)
         \<and> sum_values vec = 1)"
    by blast
  from total_rank_one_or_below [OF p, of "[0 \<mapsto> [1, 7], 1 \<mapsto> []]" 5 "1/200" 100] nc
  have 2: "(\<exists>vec. iterate_pagerank [0 \<mapsto> [1, 7], 1 \<mapsto> []] [0::int, 1] (17/20) 5 = Inr vec
         \<and> 1 - 17/20 \<le> sum_values vec \<and> sum_values vec < 1)
   \<and> (\<exists>vec n. compute_pagerank [0 \<mapsto> [1, 7], 1 \<mapsto> []] [0::int, 1] (17/20) (1/200) 100 = Inr (vec, n)
         \<and> 1 - 17/20 \<le> sum_values vec \<and> sum_values vec < 1)"
    by (simp del: iterate_pagerank.simps)
  from 1 2 show ?thesis by (simp del: iterate_pagerank.simps)
qed

text \<open>
  Counterexample to C1 as stated: the single page 0 links to 1, which is not a page;
  with the default parameters the total after the first iteration is 3/20, and the
  engine returns a vector of total 3/20 after two iterations.
\<close>

theorem phantom_target_loses_mass:
  "compute_pagerank [0 \<mapsto> [1]] [0::int] (17/20) (1/200) 100 = Inr ([(0, 3/20)], 2)
   \<and> iterate_pagerank [0 \<mapsto> [1]] [0::int] (17/20) 1 = Inr [(0, 3/20)]
   \<and> sum_values [(0::int, 3/20)] = 3/20"
  by (simp add: engine_eval)

subsection \<open>The returned pair\<close>

text \<open>
  Claim C4, as amended. The result is the pair of the final rank vector and the
  iteration count, without a convergence flag. Running out of iterations is not a
  failure: for a non-empty page set and valid parameters, when the relative change is
  below the tolerance after no iteration up to \<open>max_iterations\<close>, the engine returns the
  vector after \<open>max_iterations\<close> iterations with the count \<open>max_iterations\<close>.
\<close>

theorem nonconvergence_returns_max_iterations:
  assumes "pages \<noteq> []" "distinct pages" "0 < damping" "damping < 1" "0 < max_iterations"
    and never: "\<forall>i. 0 < i \<and> int i \<le> max_iterations \<longrightarrow>
                  (\<exists>c. delta_at g pages damping i = Inr c \<and> \<not> c < tolerance)"
  shows "\<exists>vec. compute_pagerank g pages damping tolerance max_iterations = Inr (vec, max_iterations)
           \<and> iterate_pagerank g pages damping (nat max_iterations) = Inr vec"
proof -
  have d: "0 \<le> damping" using assms(3) by simp
  have nz: "\<And>k. sum_values (iter_vec g pages damping k) \<noteq> 0"
    using assms(1,2) d assms(4) by (rule sum_values_iter_nz)
  have da: "\<And>i. delta_at g pages damping i = Inr (pure_delta g pages damping i)"
    using assms(1,2) nz by (rule delta_at_eq)
  from compute_pagerank_run [OF assms(1,2) nz, where tolerance = tolerance and max_iterations = max_iterations]
  obtain k where k:
    "compute_pagerank g pages damping tolerance max_iterations = Inr (iter_vec g pages damping k, int k)"
    "0 < k" "int k \<le> max_iterations"
    "pure_delta g pages damping k < tolerance \<or> int k = max_iterations"
    using assms(5) by auto
  have "\<not> pure_delta g pages damping k < tolerance"
    using never k(2,3) da by auto
  with k(4) have km: "int k = max_iterations" by simp
  then have "nat max_iterations = k" by simp
  with k(1) km show ?thesis
    by (simp add: iterate_pagerank_eq [OF assms(1,2)])
qed

text \<open>Witness for C4: one iteration allowed, relative change 1/2, tolerance 1/10.\<close>

theorem nonconvergence_returns_max_iterations_witness:
  "\<exists>vec. compute_pagerank [0 \<mapsto> [1]] [0::int] (1/2) (1/10) 1 = Inr (vec, 1)
           \<and> iterate_pagerank [0 \<mapsto> [1]] [0::int] (1/2) (nat 1) = Inr vec"
proof -
  have d: "delta_at [0 \<mapsto> [1]] [0::int] (1/2) 1 = Inr (1/2)"
    by (simp add: engine_eval)
  have never: "\<forall>i. 0 < i \<and> int i \<le> 1 \<longrightarrow>
                  (\<exists>c. delta_at [0 \<mapsto> [1]] [0::int] (1/2) i = Inr c \<and> \<not> c < 1/10)"
  proof (intro allI impI)
    fix i :: nat assume "0 < i \<and> int i \<le> 1"
    then have "i = 1" by simp
    with d have "delta_at [0 \<mapsto> [1]] [0::int] (1/2) i = Inr (1/2)" by simp
    then show "\<exists>c. delta_at [0 \<mapsto> [1]] [0::int] (1/2) i = Inr c \<and> \<not> c < 1/10"
      by (intro exI [of _ "1/2"]) simp
  qed
  show ?thesis
    by (rule nonconvergence_returns_max_iterations [OF _ _ _ _ _ never]) simp_all
qed

text \<open>
  Counterexample to C4 as stated: the same graph run with tolerance 10 (met after the
  first iteration) and with tolerance 1/10 (not met when the single allowed iteration
  is used up) returns the same pair, so the result does not tell the two endings apart.
\<close>

theorem result_has_no_convergence_flag:
  "compute_pagerank [0 \<mapsto> [1]] [0::int] (1/2) 10 1 = Inr ([(0, 1/2)], 1)
   \<and> compute_pagerank [0 \<mapsto> [1]] [0::int] (1/2) (1/10) 1 = Inr ([(0, 1/2)], 1)
   \<and> delta_at [0 \<mapsto> [1]] [0::int] (1/2) 1 = Inr (1/2)
   \<and> (1/2 :: rat) < 10 \<and> \<not> (1/2 :: rat) < 1/10"
  by (simp add: engine_eval)

subsection \<open>Parameters are not validated\<close>

text \<open>
  Claim C6, as amended. The engine does not validate its parameters. With
  \<open>max_iterations \<le> 0\<close> it performs no iteration and returns the uniform initial vector
  with iteration count 0, whatever the damping factor and the tolerance are.
\<close>

theorem no_iteration_without_validation:
  assumes "distinct pages" "max_iterations \<le> 0"
  shows "compute_pagerank g pages damping tolerance max_iterations
           = Inr (map (\<lambda>p. (p, 1 / of_nat (length pages))) pages, 0)"
  using assms by (simp add: compute_pagerank_loop pagerank_loop.simps initial_vec_def)

text \<open>Witness for C6: damping 2, tolerance -1, \<open>max_iterations = -3\<close>.\<close>

theorem no_iteration_without_validation_witness:
  "compute_pagerank [0 \<mapsto> [1]] [0::int, 1] 2 (-1) (-3) = Inr ([(0, 1/2), (1, 1/2)], 0)"
  using no_iteration_without_validation [where pages = "[0::int, 1]" and max_iterations = "-3"
      and g = "[0 \<mapsto> [1]]" and damping = 2 and tolerance = "-1"]
  by simp

text \<open>
  Counterexample to C6 as stated: a damping factor of 2, a tolerance of 0 and
  \<open>max_iterations = 0\<close> are each accepted, and the first two runs compute an iteration.
\<close>

theorem invalid_parameters_accepted:
  "compute_pagerank [0 \<mapsto> []] [0::int] 2 (1/200) 100 = Inr ([(0, 1)], 1)
   \<and> compute_pagerank [0 \<mapsto> []] [0::int] (17/20) 0 1 = Inr ([(0, 1)], 1)
   \<and> compute_pagerank [0 \<mapsto> []] [0::int] (17/20) (1/200) 0 = Inr ([(0, 1)], 0)"
  by (simp add: engine_eval)

section \<open>Properties of the link statistics engine\<close>

lemma describe_succeeds_iff:
  "(\<exists>d. describe single_point counts = Inr d)
     \<longleftrightarrow> (2 \<le> length counts \<or> (single_point \<and> length counts = 1))"
proof (cases counts)
  case Nil
  then show ?thesis by (simp add: describe_def stat_mean_def)
next
  case (Cons x xs)
  obtain a where a: "stat_mean counts = Inr a"
    using Cons by (simp add: stat_mean_def Let_def)
  have "stat_median counts
      = Inr (if length counts mod 2 = 1 then of_int (sort counts ! (length counts div 2))
             else (of_int (sort counts ! (length counts div 2 - 1))
                   + of_int (sort counts ! (length counts div 2))) / 2)"
    using Cons by (simp add: stat_median_def Let_def)
  then obtain m where m: "stat_median counts = Inr m" by blast
  obtain hi lo where h: "py_max counts = Inr hi" "py_min counts = Inr lo"
    using Cons by (simp add: py_max_def py_min_def)
  have q: "(\<exists>q. stat_quantiles single_point counts 5 = Inr q)
      \<longleftrightarrow> (2 \<le> length counts \<or> (single_point \<and> length counts = 1))"
    by (auto simp: stat_quantiles_def Let_def)
  have "(\<exists>d. describe single_point counts = Inr d)
      \<longleftrightarrow> (\<exists>q. stat_quantiles single_point counts 5 = Inr q)"
    by (cases "stat_quantiles single_point counts 5") (simp_all add: describe_def a m h)
  with q show ?thesis by simp
qed

lemma length_outgoing_counts: "length (outgoing_counts g pages) = length pages"
  by (simp add: outgoing_counts_def)

lemma length_incoming_values: "length (incoming_values g pages) = length pages"
  by (simp add: incoming_values_def)

lemma compute_statistics_succeeds_iff:
  "(\<exists>s. compute_statistics single_point g pages = Inr s)
     \<longleftrightarrow> (2 \<le> length pages \<or> (single_point \<and> length pages = 1))"
proof -
  have o: "(\<exists>d. describe single_point (outgoing_counts g pages) = Inr d)
     \<longleftrightarrow> (2 \<le> length pages \<or> (single_point \<and> length pages = 1))"
    using describe_succeeds_iff [of single_point "outgoing_counts g pages"]
    by (simp add: length_outgoing_counts)
  have i: "(\<exists>d. describe single_point (incoming_values g pages) = Inr d)
     \<longleftrightarrow> (2 \<le> length pages \<or> (single_point \<and> length pages = 1))"
    using describe_succeeds_iff [of single_point "incoming_values g pages"]
    by (simp add: length_incoming_values)
  show ?thesis
  proof
    assume "\<exists>s. compute_statistics single_point g pages = Inr s"
    then have "\<exists>d. describe single_point (outgoing_counts g pages) = Inr d"
      by (cases "describe single_point (outgoing_counts g pages)") (auto simp: compute_statistics_def)
    with o show "2 \<le> length pages \<or> (single_point \<and> length pages = 1)" by simp
  next
    assume "2 \<le> length pages \<or> (single_point \<and> length pages = 1)"
    with o i obtain d1 d2 where "describe single_point (outgoing_counts g pages) = Inr d1"
      "describe single_point (incoming_values g pages) = Inr d2" by blast
    then show "\<exists>s. compute_statistics single_point g pages = Inr s"
      by (simp add: compute_statistics_def)
  qed
qed

lemma fold_count_target:
  "fold (\<lambda>target c. c(target := c target + 1)) ts counts t = counts t + int (count_list ts t)"
  by (induction ts arbitrary: counts) auto

lemma fold_fold_count:
  "fold (\<lambda>page counts. fold (\<lambda>target c. c(target := c target + 1)) (graph_get g page) counts) ps counts t
     = counts t + sum_list (map (\<lambda>q. int (count_list (graph_get g q) t)) ps)"
  by (induction ps arbitrary: counts) (simp_all add: fold_count_target)

lemma incoming_counts_eq:
  "incoming_counts g pages t = sum_list (map (\<lambda>q. int (count_list (graph_get g q) t)) pages)"
  by (simp add: incoming_counts_def fold_fold_count)

lemma graph_get_in_corpus:
  "graph_get (in_corpus_edges g pages) q = filter (\<lambda>target. target \<in> set pages) (graph_get g q)"
  by (simp add: graph_get_def in_corpus_edges_def split: option.splits)

lemma count_list_filter: "P t \<Longrightarrow> count_list (filter P xs) t = count_list xs t"
  by (induction xs) auto

lemma incoming_values_in_corpus:
  "incoming_values (in_corpus_edges g pages) pages = incoming_values g pages"
  by (simp add: incoming_values_def incoming_counts_eq graph_get_in_corpus count_list_filter)

subsection \<open>In-degrees\<close>

text \<open>
  Claim C9, as amended. The in-degree the statistics engine gives a page of the page set
  is the number of edges from pages of the page set to that page. Edges whose target is
  outside the page set are not counted in the in-degree distribution: deleting them all
  from the graph changes neither the in-degree values nor, when the engine returns, the
  statistics computed over them. (Such edges count in the out-degree of their source.)
\<close>

theorem in_degree_ignores_phantom_targets:
  "incoming_values g pages
     = map (\<lambda>p. sum_list (map (\<lambda>q. int (count_list (graph_get g q) p)) pages)) pages
   \<and> incoming_values (in_corpus_edges g pages) pages = incoming_values g pages
   \<and> (\<forall>s. compute_statistics single_point g pages = Inr s \<longrightarrow>
        (\<exists>s'. compute_statistics single_point (in_corpus_edges g pages) pages = Inr s'
              \<and> incoming_stats s' = incoming_stats s))"
proof -
  have a: "incoming_values g pages
     = map (\<lambda>p. sum_list (map (\<lambda>q. int (count_list (graph_get g q) p)) pages)) pages"
    by (simp add: incoming_values_def incoming_counts_eq)
  have c: "\<forall>s. compute_statistics single_point g pages = Inr s \<longrightarrow>
        (\<exists>s'. compute_statistics single_point (in_corpus_edges g pages) pages = Inr s'
              \<and> incoming_stats s' = incoming_stats s)"
  proof (intro allI impI)
    fix s assume s: "compute_statistics single_point g pages = Inr s"
    then have "2 \<le> length pages \<or> (single_point \<and> length pages = 1)"
      using compute_statistics_succeeds_iff [of single_point g pages] by blast
    then obtain s' where s': "compute_statistics single_point (in_corpus_edges g pages) pages = Inr s'"
      using compute_statistics_succeeds_iff [of single_point "in_corpus_edges g pages" pages] by blast
    from s obtain o1 i1 where 1: "describe single_point (incoming_values g pages) = Inr i1"
      "s = \<lparr>outgoing_stats = o1, incoming_stats = i1\<rparr>"
      by (auto simp: compute_statistics_def ebind_def split: sum.splits)
    from s' obtain o2 i2 where 2: "describe single_point (incoming_values (in_corpus_edges g pages) pages) = Inr i2"
      "s' = \<lparr>outgoing_stats = o2, incoming_stats = i2\<rparr>"
      by (auto simp: compute_statistics_def ebind_def split: sum.splits)
    from 1 2 have "incoming_stats s' = incoming_stats s"
      by (simp add: incoming_values_in_corpus)
    with s' show "\<exists>s'. compute_statistics single_point (in_corpus_edges g pages) pages = Inr s'
              \<and> incoming_stats s' = incoming_stats s" by blast
  qed
  from a incoming_values_in_corpus [of g pages] c show ?thesis by blast
qed

lemmas stats_eval = compute_statistics_def describe_def stat_mean_def stat_median_def py_max_def
  py_min_def stat_quantiles_def cut_point_def outgoing_counts_def incoming_values_def
  incoming_counts_def in_corpus_edges_def graph_get_def ebind_def Let_def

text \<open>
  Witness for C9: pages 0 and 1, edges 0 \<rightarrow> 1 and 0 \<rightarrow> 5; the in-degree statistics
  are those of the in-degrees 0 and 1.
\<close>

theorem in_degree_ignores_phantom_targets_witness:
  "\<exists>s'. compute_statistics False (in_corpus_edges [0 \<mapsto> [1, 5], 1 \<mapsto> []] [0::int, 1]) [0, 1] = Inr s'
     \<and> incoming_stats s' = \<lparr>average = 1/2, median = 1/2, max_value = 1, min_value = 0,
                       quintiles = [-2/5, 1/5, 4/5, 7/5]\<rparr>"
proof -
  have "compute_statistics False [0 \<mapsto> [1, 5], 1 \<mapsto> []] [0::int, 1]
      = Inr \<lparr>outgoing_stats = \<lparr>average = 1, median = 1, max_value = 2, min_value = 0,
                          quintiles = [-4/5, 2/5, 8/5, 14/5]\<rparr>,
             incoming_stats = \<lparr>average = 1/2, median = 1/2, max_value = 1, min_value = 0,
                          quintiles = [-2/5, 1/5, 4/5, 7/5]\<rparr>\<rparr>"
    by (simp add: stats_eval upto.simps)
  with in_degree_ignores_phantom_targets [of "[0 \<mapsto> [1, 5], 1 \<mapsto> []]" "[0::int, 1]" False]
  show ?thesis by auto
qed

text \<open>
  Counterexample to C9 as stated: there is no graph with an edge from a page to a
  target outside the page set whose in-degree values change when the edges to such
  targets are deleted; with the edges 0 \<rightarrow> 1 and 0 \<rightarrow> 5 on the pages 0 and 1 the
  in-degrees are 0 and 1, the out-degrees 2 and 0.
\<close>

theorem phantom_edge_not_in_in_degree:
  "\<not> (\<exists>(g :: int graph) pages p t. p \<in> set pages \<and> t \<notin> set pages \<and> t \<in> set (graph_get g p)
        \<and> incoming_values g pages \<noteq> incoming_values (in_corpus_edges g pages) pages)
   \<and> incoming_values [0 \<mapsto> [1, 5], 1 \<mapsto> []] [0::int, 1] = [0, 1]
   \<and> outgoing_counts [0 \<mapsto> [1, 5], 1 \<mapsto> []] [0::int, 1] = [2, 0]"
  by (simp add: incoming_values_in_corpus) (simp add: stats_eval)

subsection \<open>The empty page set\<close>

text \<open>
  Claim C10, as amended. On the empty page set the statistics engine raises
  StatisticsError, and the PageRank engine raises ZeroDivisionError when
  \<open>max_iterations\<close> is at least 1. The statistics engine returns on every page set of at
  least two pages; on a single page it returns exactly when \<^verbatim>\<open>statistics.quantiles\<close>
  accepts a single data point.
\<close>

theorem empty_page_set_fails:
  "compute_statistics single_point g [] = Inl StatisticsError
   \<and> (0 < max_iterations \<longrightarrow>
        compute_pagerank g [] damping tolerance max_iterations = Inl ZeroDivisionError)
   \<and> (2 \<le> length pages \<longrightarrow> (\<exists>s. compute_statistics single_point g pages = Inr s))
   \<and> (length pages = 1 \<longrightarrow>
        ((\<exists>s. compute_statistics single_point g pages = Inr s) \<longleftrightarrow> single_point))"
proof -
  have a: "compute_statistics single_point g [] = Inl StatisticsError"
    by (simp add: compute_statistics_def describe_def stat_mean_def outgoing_counts_def)
  have b: "0 < max_iterations \<longrightarrow>
        compute_pagerank g [] damping tolerance max_iterations = Inl ZeroDivisionError"
    by (simp add: engine_eval)
  show ?thesis
    using a b compute_statistics_succeeds_iff [of single_point g pages] by auto
qed

text \<open>Witness for C10.\<close>

theorem empty_page_set_fails_witness:
  "compute_pagerank [0 \<mapsto> [1]] ([] :: int list) (17/20) (1/200) 100 = Inl ZeroDivisionError
   \<and> (\<exists>s. compute_statistics False [0 \<mapsto> [1]] [0::int, 1] = Inr s)
   \<and> (\<exists>s. compute_statistics True [0 \<mapsto> [1]] [0::int] = Inr s)"
  using empty_page_set_fails [of False "[0 \<mapsto> [1]]" 100 "17/20" "1/200" "[0::int, 1]"]
    empty_page_set_fails [of True "[0 \<mapsto> [1]]" 100 "17/20" "1/200" "[0::int]"]
  by simp

text \<open>
  Counterexample to C10 as stated: with \<open>max_iterations = 0\<close> the PageRank engine
  returns the empty vector on the empty page set, and on a single page the statistics
  engine raises StatisticsError where \<^verbatim>\<open>statistics.quantiles\<close> needs two data points.
\<close>

theorem empty_or_single_page_set_returns:
  "compute_pagerank Map.empty ([] :: int list) (17/20) (1/200) 0 = Inr ([], 0)
   \<and> compute_statistics False [7 \<mapsto> []] [7::int] = Inl StatisticsError"
  by (simp add: engine_eval stats_eval)

section \<open>Properties of the graph builder\<close>

lemma digit_not_space: "is_digit c \<Longrightarrow> \<not> is_space c"
  by (auto simp: is_digit_def is_space_def)

lemma digit_not_sign: "is_digit c \<Longrightarrow> c \<noteq> CHR ''-'' \<and> c \<noteq> CHR ''+'' \<and> c \<noteq> CHR ''.''"
  by (auto simp: is_digit_def)

lemma digit_value_nonneg: "is_digit c \<Longrightarrow> 0 \<le> digit_value c"
  by (simp add: is_digit_def digit_value_def)

lemma strip_digits:
  assumes "ds \<noteq> []" "list_all is_digit ds"
  shows "strip ds = ds"
proof -
  from assms obtain c cs where c: "ds = c # cs" "is_digit c" by (cases ds) auto
  then have 1: "dropWhile is_space ds = ds" by (simp add: digit_not_space)
  from assms have "rev ds \<noteq> []" "is_digit (hd (rev ds))"
    by (simp_all add: hd_rev list_all_iff)
  then have "dropWhile is_space (rev ds) = rev ds"
    by (cases "rev ds") (simp_all add: digit_not_space)
  with 1 show ?thesis by (simp add: strip_def)
qed

lemma int_digits_all:
  "list_all is_digit ds \<Longrightarrow>
   int_digits ds v k = Some (foldl (\<lambda>v c. 10 * v + digit_value c) v ds, k + length ds)"
  by (induction ds arbitrary: v k) simp_all

lemma foldl_decimal_head:
  "foldl (\<lambda>v c. 10 * v + digit_value c) (digit_value c) cs = decimal (c # cs)"
  by (simp add: decimal_def)

lemma py_int_digits:
  assumes "ds \<noteq> []" "list_all is_digit ds" "limit = 0 \<or> length ds \<le> limit"
  shows "py_int limit ds = Inr (decimal ds)"
proof -
  from assms obtain c cs where c: "ds = c # cs" "is_digit c" "list_all is_digit cs"
    by (cases ds) auto
  have "int_literal limit (c # cs) = Inr (decimal (c # cs))"
    using c assms(3) by (auto simp: int_literal_def int_digits_all foldl_decimal_head)
  then show ?thesis
    using c strip_digits [OF assms(1,2)] digit_not_sign [of c] by (simp add: py_int_def)
qed

lemma decimal_nonneg_aux:
  "list_all is_digit ds \<Longrightarrow> 0 \<le> v \<Longrightarrow> 0 \<le> foldl (\<lambda>v c. 10 * v + digit_value c) v ds"
  by (induction ds arbitrary: v) (simp_all add: digit_value_nonneg)

lemma decimal_nonneg: "list_all is_digit ds \<Longrightarrow> 0 \<le> decimal ds"
  by (simp add: decimal_def decimal_nonneg_aux)

lemma str_remove_digits:
  "list_all is_digit ds \<Longrightarrow> str_remove ''.html'' (ds @ ''.html'') = ds"
proof (induction ds)
  case Nil
  show ?case by simp
next
  case (Cons d ds)
  then have "d \<noteq> CHR ''.''" using digit_not_sign [of d] by simp
  then have np: "\<not> prefix ''.html'' (d # (ds @ ''.html''))" by simp
  have "str_remove ''.html'' (d # (ds @ ''.html'')) = d # str_remove ''.html'' (ds @ ''.html'')"
    by (simp only: str_remove.simps(2) np simp_thms if_False)
  also have "str_remove ''.html'' (ds @ ''.html'') = ds"
    using Cons by simp
  finally show ?case by simp
qed

lemma digits_html_split:
  "digits_html f \<Longrightarrow> f = digit_part f @ ''.html'' \<and> digit_part f \<noteq> [] \<and> list_all is_digit (digit_part f)"
proof -
  assume a: "digits_html f"
  have "f = take (length f - 5) f @ drop (length f - 5) f" by simp
  with a show ?thesis by (auto simp: digits_html_def digit_part_def)
qed

lemma page_num_digits_html:
  assumes "digits_html f" "limit = 0 \<or> length (digit_part f) \<le> limit"
  shows "py_int limit (str_remove ''.html'' f) = Inr (decimal (digit_part f))"
proof -
  from digits_html_split [OF assms(1)]
  have f: "f = digit_part f @ ''.html''" and ne: "digit_part f \<noteq> []"
    and dg: "list_all is_digit (digit_part f)" by simp_all
  have "str_remove ''.html'' f = digit_part f"
    using str_remove_digits [OF dg] f by simp
  then show ?thesis
    using py_int_digits [OF ne dg assms(2)] by simp
qed

lemma set_set_add: "set (set_add s x) = insert x (set s)"
  by (auto simp: set_add_def)

lemma distinct_set_add: "distinct s \<Longrightarrow> distinct (set_add s x)"
  by (simp add: set_add_def)

lemma parse_names_digits:
  assumes "\<And>f. f \<in> set names \<Longrightarrow> digits_html f \<and> (limit = 0 \<or> length (digit_part f) \<le> limit)"
  shows "\<exists>ps. parse_names limit names pages = Inr ps
     \<and> set ps = set pages \<union> (\<lambda>f. decimal (digit_part f)) ` set names
     \<and> (distinct pages \<longrightarrow> distinct ps)"
  using assms
proof (induction names arbitrary: pages)
  case Nil
  then show ?case by simp
next
  case (Cons f names)
  have pf: "py_int limit (str_remove ''.html'' f) = Inr (decimal (digit_part f))"
    using Cons.prems [of f] by (simp add: page_num_digits_html)
  from Cons.IH [of "set_add pages (decimal (digit_part f))"] Cons.prems
  obtain ps where ps: "parse_names limit names (set_add pages (decimal (digit_part f))) = Inr ps"
    "set ps = set (set_add pages (decimal (digit_part f))) \<union> (\<lambda>f. decimal (digit_part f)) ` set names"
    "distinct (set_add pages (decimal (digit_part f))) \<longrightarrow> distinct ps"
    by auto
  show ?case
    using ps pf by (intro exI [of _ ps]) (auto simp: set_set_add distinct_set_add)
qed

lemma fill_graph_digits:
  assumes "\<And>f. f \<in> fst ` set files \<Longrightarrow> digits_html f \<and> (limit = 0 \<or> length (digit_part f) \<le> limit)"
    and "\<And>c. c \<in> snd ` set files \<Longrightarrow> \<exists>ls. parse_links limit c = Inr ls"
  shows "\<exists>r. fill_graph limit files g incoming = Inr r"
  using assms
proof (induction files arbitrary: g incoming)
  case Nil
  then show ?case by simp
next
  case (Cons fc files)
  obtain f c where fc: "fc = (f, c)" by (cases fc)
  have pf: "py_int limit (str_remove ''.html'' f) = Inr (decimal (digit_part f))"
    using Cons.prems(1) [of f] fc by (simp add: page_num_digits_html)
  obtain ls where ls: "parse_links limit c = Inr ls"
    using Cons.prems(2) [of c] fc by auto
  have "\<exists>r. fill_graph limit files (g(decimal (digit_part f) \<mapsto> ls))
      (fold (\<lambda>target inc. incoming_append inc target (decimal (digit_part f))) ls incoming) = Inr r"
    using Cons.prems by (intro Cons.IH) auto
  then show ?case
    using fc pf ls by simp
qed

subsection \<open>Link extraction\<close>

text \<open>
  The extractor captures non-empty digit strings only, so it can fail only on a link of
  more digits than the interpreter converts: never with the limit off, and never on a
  document that is no longer than the limit.
\<close>

lemma match_anchor_digits:
  assumes "match_anchor s = Some (ds, rest)"
  shows "ds \<noteq> [] \<and> list_all is_digit ds \<and> length ds \<le> length s \<and> length rest \<le> length s"
proof -
  let ?r = "drop (length anchor_open) s"
  from assms have ds: "ds = takeWhile is_digit ?r" "ds \<noteq> []"
    and r: "rest = drop (length anchor_close) (dropWhile is_digit ?r)"
    by (auto simp: match_anchor_def Let_def split: if_splits)
  have "list_all is_digit ds"
    using ds(1) by (auto simp: list_all_iff dest: set_takeWhileD)
  moreover have "length ds \<le> length ?r"
    unfolding ds(1) by (rule length_takeWhile_le)
  moreover have "length (dropWhile is_digit ?r) \<le> length ?r"
    by (rule length_dropWhile_le)
  ultimately show ?thesis using ds(2) r by simp arith
qed

lemma find_links_digits:
  "ds \<in> set (find_links s) \<Longrightarrow> ds \<noteq> [] \<and> list_all is_digit ds \<and> length ds \<le> length s"
proof (induction s arbitrary: ds rule: find_links.induct)
  case 1
  then show ?case by simp
next
  case (2 c cs)
  show ?case
  proof (cases "match_anchor (c # cs)")
    case None
    with 2 show ?thesis by fastforce
  next
    case (Some m)
    obtain d rest where m: "m = (d, rest)" by (cases m)
    from Some m have ma: "match_anchor (c # cs) = Some (d, rest)" by simp
    from "2.prems" ma have "ds = d \<or> ds \<in> set (find_links rest)" by simp
    then show ?thesis
    proof
      assume "ds = d"
      with match_anchor_digits [OF ma] show ?thesis by simp
    next
      assume "ds \<in> set (find_links rest)"
      then have "ds \<noteq> [] \<and> list_all is_digit ds \<and> length ds \<le> length rest"
        using "2.IH"(2) [OF Some m [symmetric]] by simp
      with match_anchor_digits [OF ma] show ?thesis by simp
    qed
  qed
qed

lemma convert_links_digits:
  "(\<And>ds. ds \<in> set links \<Longrightarrow> ds \<noteq> [] \<and> list_all is_digit ds \<and> (limit = 0 \<or> length ds \<le> limit))
   \<Longrightarrow> convert_links limit links = Inr (map decimal links)"
  by (induction links) (simp_all add: py_int_digits)

lemma parse_links_succeeds:
  assumes "limit = 0 \<or> length html_content \<le> limit"
  shows "parse_links limit html_content = Inr (map decimal (find_links html_content))"
  unfolding parse_links_def
proof (rule convert_links_digits)
  fix ds assume "ds \<in> set (find_links html_content)"
  from find_links_digits [OF this] assms
  show "ds \<noteq> [] \<and> list_all is_digit ds \<and> (limit = 0 \<or> length ds \<le> limit)" by auto
qed

subsection \<open>Filenames\<close>

text \<open>
  Claim C7, as amended. When every filename is of the form \<^verbatim>\<open><digits>.html\<close> (the digits
  within the interpreter's limit) and the links of every document convert, the graph
  builder returns, and its page set is exactly the set of the non-negative integers
  denoted by the digit parts of the filenames. So the builder fails only if some
  filename is not of that form (or a link does not convert); it does not fail on every
  such filename.
\<close>

theorem build_graph_accepts_digit_names:
  assumes "\<forall>f \<in> fst ` set files_content.
             digits_html f \<and> (limit = 0 \<or> length (digit_part f) \<le> limit)"
    and "\<forall>c \<in> snd ` set files_content. \<exists>ls. parse_links limit c = Inr ls"
  shows "\<exists>g incoming pages. build_graph limit files_content = Inr (g, incoming, pages)
     \<and> set pages = (\<lambda>f. decimal (digit_part f)) ` fst ` set files_content
     \<and> distinct pages \<and> (\<forall>p \<in> set pages. 0 \<le> p)"
proof -
  from parse_names_digits [of "map fst files_content" limit "[]"] assms(1)
  obtain ps where ps: "parse_names limit (map fst files_content) [] = Inr ps"
    "set ps = (\<lambda>f. decimal (digit_part f)) ` fst ` set files_content" "distinct ps"
    by auto
  from fill_graph_digits [of files_content limit Map.empty "\<lambda>_. []"] assms
  obtain g incoming where r: "fill_graph limit files_content Map.empty (\<lambda>_. []) = Inr (g, incoming)"
    by fastforce
  have "\<forall>p \<in> set ps. 0 \<le> p"
    using ps(2) assms(1) by (auto dest!: digits_html_split intro: decimal_nonneg)
  with ps r show ?thesis
    by (simp add: build_graph_def)
qed

lemmas builder_eval = build_graph_def py_int_def int_literal_def strip_def is_space_def is_digit_def
  digit_value_def set_add_def parse_links_def match_anchor_def anchor_open_def anchor_close_def
  digits_html_def digit_part_def decimal_def ebind_def Let_def

text \<open>Witness for C7: the files \<^verbatim>\<open>10.html\<close>, with a link to page 7, and \<^verbatim>\<open>007.html\<close>.\<close>

theorem build_graph_accepts_digit_names_witness:
  "\<exists>g incoming pages.
     build_graph 4300 [(''10.html'', ''<a HREF='' @ [CHR 0x22] @ ''7.html'' @ [CHR 0x22] @ ''>''), (''007.html'', '''')]
       = Inr (g, incoming, pages)
     \<and> set pages = {10, 7}"
proof -
  have 1: "\<forall>f \<in> fst ` set [(''10.html'', ''<a HREF='' @ [CHR 0x22] @ ''7.html'' @ [CHR 0x22] @ ''>''), (''007.html'', '''')].
     digits_html f \<and> ((4300::nat) = 0 \<or> length (digit_part f) \<le> 4300)"
    by (simp add: digits_html_def digit_part_def is_digit_def)
  have 2: "\<forall>c \<in> snd ` set [(''10.html'', ''<a HREF='' @ [CHR 0x22] @ ''7.html'' @ [CHR 0x22] @ ''>''), (''007.html'', '''')].
     \<exists>ls. parse_links 4300 c = Inr ls"
    by (simp add: builder_eval)
  from build_graph_accepts_digit_names [OF 1 2]
  show ?thesis by (auto simp: digit_part_def decimal_def digit_value_def)
qed

text \<open>
  Counterexample to C7 as stated: the filenames \<^verbatim>\<open>12\<close>, \<^verbatim>\<open>-5.html\<close> and
  \<^verbatim>\<open> 1_0.html.html\<close> are not of the form \<^verbatim>\<open><digits>.html\<close>, and the builder returns
  with the pages 12, -5 and 10.
\<close>

theorem build_graph_accepts_other_names:
  "\<not> digits_html ''12'' \<and> \<not> digits_html ''-5.html'' \<and> \<not> digits_html '' 1_0.html.html''
   \<and> (\<exists>g incoming. build_graph 4300 [(''12'', ''''), (''-5.html'', ''''), ('' 1_0.html.html'', '''')]
         = Inr (g, incoming, [12, -5, 10]))"
  by (simp add: builder_eval)

end
